theory Spec2Isabelle
  imports Main
begin

section \<open>Data model of bfs.c\<close>

text \<open>
  The constants of the C source. \<open>TRUE\<close>, \<open>FALSE\<close>, \<open>NIL\<close> and \<open>NOTVISIT\<close> are
  \<open>int\<close> values there; the cell characters are \<open>char\<close>s. A C \<open>int\<close> is an unbounded
  integer here: coordinates stay within the 100 by 100 block, and the costs of a
  traversal stay below the number of cells of the grid (\<open>flood_inv_cost_bound\<close> below),
  so no operation of the traversal overflows.
\<close>

abbreviation MAX_ROWS :: int where "MAX_ROWS \<equiv> 100"
abbreviation MAX_COLS :: int where "MAX_COLS \<equiv> 100"
abbreviation NOTVISIT :: int where "NOTVISIT \<equiv> - 1"
abbreviation TRUE :: int where "TRUE \<equiv> 1"
abbreviation FALSE :: int where "FALSE \<equiv> 0"
abbreviation NIL :: int where "NIL \<equiv> 0"

definition PATH :: char where
  "PATH = CHR ''.''"

definition WALL :: char where
  "WALL = CHR ''#''"

text \<open>
  \<open>struct cell_s\<close>. The fields \<open>x\<close>, \<open>y\<close>, \<open>cost\<close>, \<open>reach\<close>, \<open>soln\<close>, \<open>type\<close> carry the
  prefix \<open>cell_\<close> (a record field is a constant, and \<open>x\<close>, \<open>y\<close> are wanted as variables;
  \<open>cost\<close> and \<open>soln\<close> are fields of the maze as well).
\<close>

record cell =
  cell_x :: int
  cell_y :: int
  cell_cost :: int
  cell_reach :: int
  cell_soln :: int
  cell_type :: char

text \<open>
  \<open>struct maze_s\<close>. \<open>cells\<close> is the content of the \<open>MAX_ROWS\<close> by \<open>MAX_COLS\<close> block that
  \<open>new_maze\<close> allocates: \<open>cells m x y\<close> is \<open>maze->cells[x][y]\<close>. Only indices inside that
  block may be dereferenced, see \<open>cell_at\<close>.
\<close>

record maze =
  rows :: int
  cols :: int
  maze_cost :: int
  maze_soln :: int
  cells :: "int \<Rightarrow> int \<Rightarrow> cell"

text \<open>
  A \<open>cell_t *\<close> that points into the maze is the pair of indices of the cell it points
  to; the null pointer is \<open>None\<close> where a \<open>cell_t *\<close> may be null.
\<close>

type_synonym cellptr = "int \<times> int"

text \<open>
  \<open>struct list_s\<close>. All list nodes live in one sequence in the order of their \<open>next\<close>
  links, and a \<open>list_t *\<close> is the position of the node in that sequence (\<open>None\<close> for the
  null pointer). The \<open>next\<close> field of the node at position \<open>k\<close> is therefore position
  \<open>k + 1\<close>, or null for the last node (\<open>node_next\<close>); \<open>cell\<close> and \<open>parent\<close> are stored.
\<close>

record node =
  node_cell :: cellptr
  node_parent :: "nat option"

datatype error = OutOfBounds | BadPointer

definition in_array :: "int \<Rightarrow> int \<Rightarrow> bool" where
  "in_array x y \<longleftrightarrow> 0 \<le> x \<and> x < MAX_ROWS \<and> 0 \<le> y \<and> y < MAX_COLS"

text \<open>Reading \<open>maze->cells[x][y]\<close>: outside the allocated block the read is an error.\<close>

definition cell_at :: "maze \<Rightarrow> int \<Rightarrow> int \<Rightarrow> error + cell" where
  "cell_at m x y = (if in_array x y then Inr (cells m x y) else Inl OutOfBounds)"

text \<open>Storing a cell at \<open>maze->cells[x][y]\<close> (the callers have checked the indices).\<close>

definition put_cell :: "maze \<Rightarrow> int \<Rightarrow> int \<Rightarrow> cell \<Rightarrow> maze" where
  "put_cell m x y c = m\<lparr>cells := (cells m)(x := (cells m x)(y := c))\<rparr>"

text \<open>Dereferencing a \<open>list_t *\<close>, and the \<open>next\<close> field of the node it points to.\<close>

definition node_at :: "node list \<Rightarrow> nat \<Rightarrow> error + node" where
  "node_at ns k = (if k < length ns then Inr (ns ! k) else Inl BadPointer)"

definition node_next :: "node list \<Rightarrow> nat \<Rightarrow> nat option" where
  "node_next ns k = (if Suc k < length ns then Some (Suc k) else None)"

definition list_head :: "node list \<Rightarrow> nat option" where
  "list_head ns = (if ns = [] then None else Some 0)"

text \<open>Sequencing of two steps, the second of which runs only if the first did not fail.\<close>

definition and_then :: "error + 'a \<Rightarrow> ('a \<Rightarrow> error + 'b) \<Rightarrow> error + 'b" where
  "and_then r f = (case r of Inl e \<Rightarrow> Inl e | Inr v \<Rightarrow> f v)"

section \<open>The list operations\<close>

text \<open>
  \<open>append\<close> walks from \<open>list\<close> to the last node and links a new node behind it: the new
  node becomes the last of the sequence. \<open>prepend\<close> puts a new node (parent null, from
  \<open>calloc\<close>) in front.
\<close>

definition append_node :: "node list \<Rightarrow> nat option \<Rightarrow> cellptr \<Rightarrow> node list" where
  "append_node ns parent c = ns @ [\<lparr>node_cell = c, node_parent = parent\<rparr>]"

definition prepend :: "node list \<Rightarrow> cellptr \<Rightarrow> node list" where
  "prepend ns c = \<lparr>node_cell = c, node_parent = None\<rparr> # ns"

section \<open>The traversal\<close>

text \<open>
  \<open>find_entries\<close> walks along row \<open>x\<close> (row 0 in \<open>traverse_maze\<close>) from column \<open>y\<close>:
  the argument \<open>cell\<close> is the pointer to \<open>maze->cells[x][y]\<close>, and \<open>cell + 1\<close> is the
  next column. The argument \<open>queue\<close> is the head of the list, given here by the sequence
  of the nodes behind it (empty for the null pointer); the result is the maze and that
  sequence. \<open>lim\<close> counts down to 0. Reading \<open>cell->type\<close> beyond the allocated row is
  an error, which is what makes the walk finite for every \<open>lim\<close>.
\<close>

function find_entries ::
  "maze \<Rightarrow> int \<Rightarrow> int \<Rightarrow> node list \<Rightarrow> int \<Rightarrow> error + maze \<times> node list" where
  "find_entries m x y queue lim =
     (if lim \<noteq> 0 then
        (if \<not> in_array x y then Inl OutOfBounds
         else if cell_type (cells m x y) = PATH then
           (let m1 = put_cell m x y ((cells m x y)\<lparr>cell_reach := TRUE\<rparr>);
                m2 = put_cell m1 x y ((cells m1 x y)\<lparr>cell_cost := FALSE\<rparr>);
                queue' = (if queue = [] then prepend queue (x, y)
                          else append_node queue None (x, y))
            in find_entries m2 x (y + 1) queue' (lim - 1))
         else find_entries m x (y + 1) queue (lim - 1))
      else Inr (m, queue))"
  by pat_completeness auto
termination
  by (relation "measure (\<lambda>(m, x, y, queue, lim). nat (MAX_COLS - y))")
    (auto simp: in_array_def)

declare find_entries.simps [simp del]

definition visit_cell ::
  "maze \<Rightarrow> node list \<Rightarrow> nat \<Rightarrow> int \<Rightarrow> int \<Rightarrow> int \<Rightarrow> error + maze \<times> node list" where
  "visit_cell m ns queue x y cost =
     (if \<not> in_array x y then Inl OutOfBounds
      else
        (let m1 = put_cell m x y ((cells m x y)\<lparr>cell_reach := TRUE\<rparr>)
         in if cell_cost (cells m1 x y) < NIL \<or> cost < cell_cost (cells m1 x y) then
              Inr (put_cell m1 x y ((cells m1 x y)\<lparr>cell_cost := cost\<rparr>),
                   append_node ns (Some queue) (x, y))
            else Inr (m1, ns)))"

definition flood_up ::
  "maze \<Rightarrow> node list \<Rightarrow> nat \<Rightarrow> int \<Rightarrow> int \<Rightarrow> int \<Rightarrow> error + maze \<times> node list" where
  "flood_up m ns queue x y cost =
     (if x \<ge> NIL then
        (case cell_at m x y of
           Inl e \<Rightarrow> Inl e
         | Inr c \<Rightarrow> if cell_type c = PATH then visit_cell m ns queue x y cost
                    else Inr (m, ns))
      else Inr (m, ns))"

definition flood_down ::
  "maze \<Rightarrow> node list \<Rightarrow> nat \<Rightarrow> int \<Rightarrow> int \<Rightarrow> int \<Rightarrow> error + maze \<times> node list" where
  "flood_down m ns queue x y cost =
     (if x < rows m then
        (case cell_at m x y of
           Inl e \<Rightarrow> Inl e
         | Inr c \<Rightarrow> if cell_type c = PATH then visit_cell m ns queue x y cost
                    else Inr (m, ns))
      else Inr (m, ns))"

definition flood_left ::
  "maze \<Rightarrow> node list \<Rightarrow> nat \<Rightarrow> int \<Rightarrow> int \<Rightarrow> int \<Rightarrow> error + maze \<times> node list" where
  "flood_left m ns queue x y cost =
     (if y \<ge> NIL then
        (case cell_at m x y of
           Inl e \<Rightarrow> Inl e
         | Inr c \<Rightarrow> if cell_type c = PATH then visit_cell m ns queue x y cost
                    else Inr (m, ns))
      else Inr (m, ns))"

definition flood_right ::
  "maze \<Rightarrow> node list \<Rightarrow> nat \<Rightarrow> int \<Rightarrow> int \<Rightarrow> int \<Rightarrow> error + maze \<times> node list" where
  "flood_right m ns queue x y cost =
     (if y < cols m then
        (case cell_at m x y of
           Inl e \<Rightarrow> Inl e
         | Inr c \<Rightarrow> if cell_type c = PATH then visit_cell m ns queue x y cost
                    else Inr (m, ns))
      else Inr (m, ns))"

text \<open>
  The body of \<open>recursive_flood\<close> for a non-null \<open>queue\<close>, up to the recursive call: the
  coordinates and the cost are read through \<open>queue->cell\<close>, then the four neighbours
  are tried in the order right, down, left, up.
\<close>

definition flood_node :: "maze \<Rightarrow> node list \<Rightarrow> nat \<Rightarrow> error + maze \<times> node list" where
  "flood_node m ns queue =
     and_then (node_at ns queue) (\<lambda>n.
     and_then (cell_at m (fst (node_cell n)) (snd (node_cell n))) (\<lambda>c.
       (let x = cell_x c; y = cell_y c; cost = cell_cost c in
        and_then (flood_right m ns queue x (y + 1) (cost + 1)) (\<lambda>(m1, ns1).
        and_then (flood_down m1 ns1 queue (x + 1) y (cost + 1)) (\<lambda>(m2, ns2).
        and_then (flood_left m2 ns2 queue x (y - 1) (cost + 1)) (\<lambda>(m3, ns3).
        flood_up m3 ns3 queue (x - 1) y (cost + 1)))))))"

text \<open>
  \<open>recursive_flood\<close> follows \<open>queue->next\<close>, read after the four calls that may have
  appended to the list. The list grows while it is walked, so the function is partial:
  \<open>None\<close> is "does not return".
\<close>

partial_function (option) recursive_flood ::
  "maze \<Rightarrow> node list \<Rightarrow> nat option \<Rightarrow> (error + maze \<times> node list) option" where
  "recursive_flood m ns queue =
     (case queue of
        None \<Rightarrow> Some (Inr (m, ns))
      | Some q \<Rightarrow>
          (case flood_node m ns q of
             Inl e \<Rightarrow> Some (Inl e)
           | Inr (m', ns') \<Rightarrow> recursive_flood m' ns' (node_next ns' q)))"

declare recursive_flood.simps [code]

text \<open>
  \<open>find_exit\<close> walks along row \<open>x\<close> (the last row in \<open>traverse_maze\<close>) from column \<open>y\<close>,
  with the best exit so far and its cost. The two nested tests of the source are one
  conjunction here: both lead to the same call when either fails.
\<close>

function find_exit ::
  "maze \<Rightarrow> int \<Rightarrow> int \<Rightarrow> cellptr option \<Rightarrow> int \<Rightarrow> int \<Rightarrow> error + cellptr option" where
  "find_exit m x y exit cost lim =
     (if lim \<noteq> 0 then
        (if \<not> in_array x y then Inl OutOfBounds
         else if cell_type (cells m x y) = PATH \<and> cell_reach (cells m x y) \<noteq> 0
                 \<and> (cost < NIL \<or> (cell_cost (cells m x y) \<ge> NIL \<and> cell_cost (cells m x y) < cost))
         then find_exit m x (y + 1) (Some (x, y)) (cell_cost (cells m x y)) (lim - 1)
         else find_exit m x (y + 1) exit cost (lim - 1))
      else Inr exit)"
  by pat_completeness auto
termination
  by (relation "measure (\<lambda>(m, x, y, exit, cost, lim). nat (MAX_COLS - y))")
    (auto simp: in_array_def)

declare find_exit.simps [simp del]

text \<open>
  \<open>shortest_path\<close> first follows \<open>next\<close> links until the node of the exit, then \<open>parent\<close>
  links (with \<open>exit\<close> null) up to a root, setting \<open>soln\<close> through \<open>queue->cell\<close> on the way
  and counting. Parent links of an arbitrary list may form a cycle, so the function is
  partial as well.
\<close>

partial_function (option) shortest_path ::
  "maze \<Rightarrow> node list \<Rightarrow> nat option \<Rightarrow> cellptr option \<Rightarrow> (error + maze \<times> int) option" where
  "shortest_path m ns queue exit =
     (case queue of
        None \<Rightarrow> Some (Inr (m, - 1))
      | Some q \<Rightarrow>
          (case node_at ns q of
             Inl e \<Rightarrow> Some (Inl e)
           | Inr n \<Rightarrow>
               if exit = None \<or> Some (node_cell n) = exit then
                 (case cell_at m (fst (node_cell n)) (snd (node_cell n)) of
                    Inl e \<Rightarrow> Some (Inl e)
                  | Inr c \<Rightarrow>
                      Option.bind
                        (shortest_path
                           (put_cell m (fst (node_cell n)) (snd (node_cell n)) (c\<lparr>cell_soln := TRUE\<rparr>))
                           ns (node_parent n) None)
                        (\<lambda>r. case r of
                                Inl e \<Rightarrow> Some (Inl e)
                              | Inr (m', k) \<Rightarrow> Some (Inr (m', 1 + k))))
               else shortest_path m ns (node_next ns q) exit))"

declare shortest_path.simps [code]

text \<open>
  The first two statements of \<open>traverse_maze\<close>: the entrances of row 0 are enqueued and
  the maze is flooded from the head of the list. The result is the maze and the list.
\<close>

definition flood_maze :: "maze \<Rightarrow> (error + maze \<times> node list) option" where
  "flood_maze m =
     (case find_entries m 0 0 [] (cols m) of
        Inl e \<Rightarrow> Some (Inl e)
      | Inr (m1, queue) \<Rightarrow> recursive_flood m1 queue (list_head queue))"

text \<open>
  \<open>traverse_maze\<close>. \<open>maze->cells[LAST_ROW]\<close> reads the row pointer at index \<open>rows - 1\<close>,
  which is outside the allocated block when \<open>rows\<close> is 0. \<open>free_list\<close> releases the nodes
  and changes nothing of the maze.
\<close>

definition traverse_maze :: "maze \<Rightarrow> (error + maze) option" where
  "traverse_maze m =
     (case flood_maze m of
        None \<Rightarrow> None
      | Some (Inl e) \<Rightarrow> Some (Inl e)
      | Some (Inr (m2, queue)) \<Rightarrow>
          if \<not> in_array (rows m2 - 1) 0 then Some (Inl OutOfBounds)
          else
            (case find_exit m2 (rows m2 - 1) 0 None NOTVISIT (cols m2) of
               Inl e \<Rightarrow> Some (Inl e)
             | Inr None \<Rightarrow> Some (Inr m2)
             | Inr (Some ex) \<Rightarrow>
                 (case shortest_path m2 queue (list_head queue) (Some ex) of
                    None \<Rightarrow> None
                  | Some (Inl e) \<Rightarrow> Some (Inl e)
                  | Some (Inr (m3, k)) \<Rightarrow>
                      Some (Inr (m3\<lparr>maze_cost := k, maze_soln := TRUE\<rparr>)))))"

section \<open>Input grids\<close>

text \<open>
  The maze that \<open>new_maze\<close> and \<open>read_maze\<close> leave in memory for a text of at most
  \<open>MAX_ROWS\<close> newline-terminated rows of one length between 1 and \<open>MAX_COLS\<close>: \<open>calloc\<close>
  zeroes every field, \<open>read_cell\<close> stores the coordinates, the character and the cost
  \<open>NOTVISIT\<close> in the cells it reads, and \<open>rows\<close> and \<open>cols\<close> are the counts that \<open>read_row\<close>
  and \<open>read_cell\<close> return. The concrete grids below are built with it.
\<close>

definition zero_cell :: cell where
  "zero_cell = \<lparr>cell_x = 0, cell_y = 0, cell_cost = 0, cell_reach = 0, cell_soln = 0,
                cell_type = CHR 0x00\<rparr>"

definition read_cells :: "string list \<Rightarrow> int \<Rightarrow> int \<Rightarrow> cell" where
  "read_cells txt x y =
     (if 0 \<le> x \<and> x < int (length txt) \<and> 0 \<le> y \<and> y < int (length (txt ! nat x)) then
        \<lparr>cell_x = x, cell_y = y, cell_cost = NOTVISIT, cell_reach = 0, cell_soln = 0,
         cell_type = txt ! nat x ! nat y\<rparr>
      else zero_cell)"

definition maze_of :: "string list \<Rightarrow> maze" where
  "maze_of txt =
     \<lparr>rows = int (length txt), cols = int (length (last txt)), maze_cost = 0, maze_soln = 0,
      cells = read_cells txt\<rparr>"

definition maze_A :: maze where
  "maze_A = maze_of [''.#.'', ''...'', ''.#.'']"

definition maze_B :: maze where
  "maze_B = maze_of [''.#'', ''##'']"

definition maze_C :: maze where
  "maze_C = maze_of [''#.#'', ''...'']"

definition maze_D :: maze where
  "maze_D = maze_of [''##'', ''.#'']"

text \<open>
  A valid input grid: between 1 and the maximum number of rows and columns, the solution
  flag clear, and in every cell of the grid the coordinates stored, the cost \<open>NOTVISIT\<close>
  and the flags clear. The kinds are the characters: \<open>PATH\<close> is an open cell, every other
  character is a wall for the traversal.
\<close>

definition valid_maze :: "maze \<Rightarrow> bool" where
  "valid_maze m \<longleftrightarrow>
     1 \<le> rows m \<and> rows m \<le> MAX_ROWS \<and> 1 \<le> cols m \<and> cols m \<le> MAX_COLS \<and>
     maze_soln m = FALSE \<and>
     (\<forall>x\<in>{0..<rows m}. \<forall>y\<in>{0..<cols m}.
        cell_x (cells m x y) = x \<and> cell_y (cells m x y) = y \<and>
        cell_cost (cells m x y) = NOTVISIT \<and> cell_reach (cells m x y) = FALSE \<and>
        cell_soln (cells m x y) = FALSE)"

section \<open>The specification's vocabulary\<close>

definition cost_at :: "maze \<Rightarrow> cellptr \<Rightarrow> int" where
  "cost_at m p = cell_cost (cells m (fst p) (snd p))"

definition reach_at :: "maze \<Rightarrow> cellptr \<Rightarrow> int" where
  "reach_at m p = cell_reach (cells m (fst p) (snd p))"

definition soln_at :: "maze \<Rightarrow> cellptr \<Rightarrow> int" where
  "soln_at m p = cell_soln (cells m (fst p) (snd p))"

definition type_at :: "maze \<Rightarrow> cellptr \<Rightarrow> char" where
  "type_at m p = cell_type (cells m (fst p) (snd p))"

definition in_grid :: "maze \<Rightarrow> cellptr \<Rightarrow> bool" where
  "in_grid m p \<longleftrightarrow> 0 \<le> fst p \<and> fst p < rows m \<and> 0 \<le> snd p \<and> snd p < cols m"

definition is_open :: "maze \<Rightarrow> cellptr \<Rightarrow> bool" where
  "is_open m p \<longleftrightarrow> in_grid m p \<and> type_at m p = PATH"

text \<open>Two cells are 4-adjacent when they are one unit step apart along one axis.\<close>

definition adjacent :: "cellptr \<Rightarrow> cellptr \<Rightarrow> bool" where
  "adjacent p p' \<longleftrightarrow> \<bar>fst p - fst p'\<bar> + \<bar>snd p - snd p'\<bar> = 1"

text \<open>An entrance is an open cell of row 0.\<close>

definition entrance :: "maze \<Rightarrow> cellptr \<Rightarrow> bool" where
  "entrance m p \<longleftrightarrow> is_open m p \<and> fst p = 0"

text \<open>A non-empty sequence of open cells, each 4-adjacent to the next.\<close>

fun open_path :: "maze \<Rightarrow> cellptr list \<Rightarrow> bool" where
  "open_path m [] = False"
| "open_path m [p] = is_open m p"
| "open_path m (p # p' # ps) = (is_open m p \<and> adjacent p p' \<and> open_path m (p' # ps))"

text \<open>
  \<open>route m ps p\<close>: \<open>ps\<close> is a path of open cells that leads from \<open>p\<close> (its first cell) back
  to an entrance (its last cell). It makes \<open>length ps - 1\<close> unit steps.
\<close>

definition route :: "maze \<Rightarrow> cellptr list \<Rightarrow> cellptr \<Rightarrow> bool" where
  "route m ps p \<longleftrightarrow> open_path m ps \<and> hd ps = p \<and> entrance m (last ps)"

text \<open>
  \<open>shortest m p d\<close>: the true shortest hop count from the nearest entrance to \<open>p\<close> is \<open>d\<close>.
\<close>

definition shortest :: "maze \<Rightarrow> cellptr \<Rightarrow> nat \<Rightarrow> bool" where
  "shortest m p d \<longleftrightarrow>
     (\<exists>ps. route m ps p \<and> length ps = Suc d) \<and> (\<forall>ps. route m ps p \<longrightarrow> d < length ps)"

text \<open>The candidates of the exit selector: open, reachable cells of the last row.\<close>

definition exit_candidate :: "maze \<Rightarrow> int \<Rightarrow> bool" where
  "exit_candidate m y \<longleftrightarrow>
     0 \<le> y \<and> y < cols m \<and> cell_type (cells m (rows m - 1) y) = PATH \<and>
     cell_reach (cells m (rows m - 1) y) \<noteq> 0"

section \<open>Invariants of the flood\<close>

text \<open>
  The traversal writes only the cost and the reachability flag of cells; the path
  reconstruction writes only the solution flag.
\<close>

definition same_frame :: "maze \<Rightarrow> maze \<Rightarrow> bool" where
  "same_frame m0 m \<longleftrightarrow>
     rows m = rows m0 \<and> cols m = cols m0 \<and> maze_cost m = maze_cost m0 \<and>
     maze_soln m = maze_soln m0 \<and>
     (\<forall>x y. cell_x (cells m x y) = cell_x (cells m0 x y) \<and>
            cell_y (cells m x y) = cell_y (cells m0 x y) \<and>
            cell_soln (cells m x y) = cell_soln (cells m0 x y) \<and>
            cell_type (cells m x y) = cell_type (cells m0 x y))"

text \<open>The cells that have a node in the list.\<close>

definition queued :: "node list \<Rightarrow> cellptr set" where
  "queued ns = node_cell ` set ns"

text \<open>
  Every node stands for an open cell of the grid, no cell has two nodes, and the cells
  with a node are exactly the cells of the grid with a cost; they are marked reachable,
  and the others are as the reader left them.
\<close>

definition marks_ok :: "maze \<Rightarrow> maze \<Rightarrow> node list \<Rightarrow> bool" where
  "marks_ok m0 m ns \<longleftrightarrow>
     distinct (map node_cell ns) \<and>
     (\<forall>n\<in>set ns. is_open m0 (node_cell n)) \<and>
     (\<forall>p. in_grid m0 p \<longrightarrow>
        (if p \<in> queued ns then 0 \<le> cost_at m p \<and> reach_at m p = TRUE
         else cost_at m p = NOTVISIT \<and> reach_at m p = FALSE))"

text \<open>
  A root node stands for a cell of row 0 with cost 0; any other node was appended after
  its parent, stands for a neighbour of the parent's cell and costs one more.
\<close>

definition parents_ok :: "maze \<Rightarrow> node list \<Rightarrow> bool" where
  "parents_ok m ns \<longleftrightarrow>
     (\<forall>k<length ns.
        case node_parent (ns ! k) of
          None \<Rightarrow> fst (node_cell (ns ! k)) = 0 \<and> cost_at m (node_cell (ns ! k)) = 0
        | Some j \<Rightarrow> j < k \<and> adjacent (node_cell (ns ! j)) (node_cell (ns ! k)) \<and>
                    cost_at m (node_cell (ns ! k)) = cost_at m (node_cell (ns ! j)) + 1)"

text \<open>
  The costs along the list never decrease, and while node \<open>q\<close> is being expanded no node
  costs more than one step beyond it.
\<close>

definition levels_ok :: "maze \<Rightarrow> node list \<Rightarrow> nat \<Rightarrow> bool" where
  "levels_ok m ns q \<longleftrightarrow>
     sorted (map (\<lambda>n. cost_at m (node_cell n)) ns) \<and>
     (q < length ns \<longrightarrow>
        (\<forall>n\<in>set ns. cost_at m (node_cell n) \<le> cost_at m (node_cell (ns ! q)) + 1))"

text \<open>Every open neighbour of a node before position \<open>q\<close> has a cost, at most one more.\<close>

definition expanded :: "maze \<Rightarrow> maze \<Rightarrow> node list \<Rightarrow> nat \<Rightarrow> bool" where
  "expanded m0 m ns q \<longleftrightarrow>
     (\<forall>k<q. \<forall>p. adjacent (node_cell (ns ! k)) p \<and> is_open m0 p \<longrightarrow>
        0 \<le> cost_at m p \<and> cost_at m p \<le> cost_at m (node_cell (ns ! k)) + 1)"

text \<open>
  The invariant of \<open>recursive_flood\<close>, for the input grid \<open>m0\<close>, when the nodes before
  position \<open>q\<close> have been expanded.
\<close>

definition flood_inv :: "maze \<Rightarrow> maze \<Rightarrow> node list \<Rightarrow> nat \<Rightarrow> bool" where
  "flood_inv m0 m ns q \<longleftrightarrow>
     valid_maze m0 \<and> same_frame m0 m \<and> q \<le> length ns \<and>
     marks_ok m0 m ns \<and> parents_ok m ns \<and> levels_ok m ns q \<and> expanded m0 m ns q \<and>
     (\<forall>p. entrance m0 p \<longrightarrow> cost_at m p = 0)"

text \<open>
  The invariant of \<open>find_entries\<close> when the columns before \<open>y\<close> of row 0 have been seen.
\<close>

definition entries_inv :: "maze \<Rightarrow> maze \<Rightarrow> node list \<Rightarrow> int \<Rightarrow> bool" where
  "entries_inv m0 m ns y \<longleftrightarrow>
     valid_maze m0 \<and> same_frame m0 m \<and> 0 \<le> y \<and> y \<le> cols m0 \<and>
     marks_ok m0 m ns \<and>
     (\<forall>n\<in>set ns. node_parent n = None \<and> fst (node_cell n) = 0 \<and> snd (node_cell n) < y \<and>
         cost_at m (node_cell n) = 0) \<and>
     (\<forall>p. entrance m0 p \<and> snd p < y \<longrightarrow> p \<in> queued ns)"

text \<open>
  What one attempt of \<open>flood_node\<close> at the neighbour \<open>p\<close> appends, and what it leaves
  behind: the invariant, the costs of the other cells and of cells that had one, and a
  cost of at most \<open>d + 1\<close> at \<open>p\<close> if it is open.
\<close>

definition fresh :: "maze \<Rightarrow> maze \<Rightarrow> nat \<Rightarrow> cellptr \<Rightarrow> node list" where
  "fresh m0 m q p =
     (if is_open m0 p \<and> cost_at m p < 0 then [\<lparr>node_cell = p, node_parent = Some q\<rparr>] else [])"

definition attempt_ok ::
  "maze \<Rightarrow> maze \<Rightarrow> node list \<Rightarrow> nat \<Rightarrow> cellptr \<Rightarrow> int \<Rightarrow> maze \<Rightarrow> bool" where
  "attempt_ok m0 m ns q p d m' \<longleftrightarrow>
     flood_inv m0 m' (ns @ fresh m0 m q p) q \<and>
     (\<forall>p'. p' \<noteq> p \<longrightarrow> cost_at m' p' = cost_at m p') \<and>
     (0 \<le> cost_at m p \<longrightarrow> cost_at m' p = cost_at m p) \<and>
     (is_open m0 p \<longrightarrow> 0 \<le> cost_at m' p \<and> cost_at m' p \<le> d + 1)"

section \<open>The states of the flood\<close>

text \<open>
  One call of \<open>recursive_flood\<close> with a non-null \<open>queue\<close> leads to the next call: the
  state is the maze, the list and the argument \<open>queue\<close>. \<open>flood_state m0 s\<close> says that
  \<open>traverse_maze\<close> on the input grid \<open>m0\<close> calls \<open>recursive_flood\<close> in state \<open>s\<close>.
\<close>

inductive flood_step ::
  "maze \<times> node list \<times> nat option \<Rightarrow> maze \<times> node list \<times> nat option \<Rightarrow> bool" where
  expand: "flood_node m ns q = Inr (m', ns') \<Longrightarrow>
           flood_step (m, ns, Some q) (m', ns', node_next ns' q)"

definition flood_state :: "maze \<Rightarrow> maze \<times> node list \<times> nat option \<Rightarrow> bool" where
  "flood_state m0 s \<longleftrightarrow>
     (\<exists>m1 ns1. find_entries m0 0 0 [] (cols m0) = Inr (m1, ns1) \<and>
        flood_step\<^sup>*\<^sup>* (m1, ns1, list_head ns1) s)"

definition state_inv :: "maze \<Rightarrow> maze \<times> node list \<times> nat option \<Rightarrow> bool" where
  "state_inv m0 s \<longleftrightarrow>
     (case s of (m, ns, queue) \<Rightarrow>
        (case queue of
           None \<Rightarrow> flood_inv m0 m ns (length ns)
         | Some q \<Rightarrow> q < length ns \<and> flood_inv m0 m ns q))"

section \<open>The exit and the solution path\<close>

text \<open>
  The invariant of \<open>find_exit\<close> when the columns before \<open>y\<close> of the last row have been
  seen: without a candidate there is no exit and the cost is negative; otherwise the exit
  is the leftmost candidate of least cost.
\<close>

definition exit_inv :: "maze \<Rightarrow> int \<Rightarrow> cellptr option \<Rightarrow> int \<Rightarrow> bool" where
  "exit_inv m y exit cost \<longleftrightarrow>
     (case exit of
        None \<Rightarrow> cost < 0 \<and> (\<forall>j<y. \<not> exit_candidate m j)
      | Some e \<Rightarrow>
          fst e = rows m - 1 \<and> snd e < y \<and> exit_candidate m (snd e) \<and>
          cost = cost_at m e \<and> 0 \<le> cost \<and>
          (\<forall>j<y. exit_candidate m j \<longrightarrow> cost \<le> cost_at m (rows m - 1, j)) \<and>
          (\<forall>j<snd e. exit_candidate m j \<longrightarrow> cost < cost_at m (rows m - 1, j)))"

text \<open>
  The cells of the nodes from node \<open>k\<close> along the parent links up to a root, and the maze
  with the solution flag set in a sequence of cells.
\<close>

inductive chain :: "node list \<Rightarrow> nat \<Rightarrow> cellptr list \<Rightarrow> bool" where
  root: "k < length ns \<Longrightarrow> node_parent (ns ! k) = None \<Longrightarrow> chain ns k [node_cell (ns ! k)]"
| link: "k < length ns \<Longrightarrow> node_parent (ns ! k) = Some j \<Longrightarrow> chain ns j ps \<Longrightarrow>
         chain ns k (node_cell (ns ! k) # ps)"

definition mark_soln :: "maze \<Rightarrow> cellptr \<Rightarrow> maze" where
  "mark_soln m p = put_cell m (fst p) (snd p) ((cells m (fst p) (snd p))\<lparr>cell_soln := TRUE\<rparr>)"

definition mark_all :: "maze \<Rightarrow> cellptr list \<Rightarrow> maze" where
  "mark_all m ps = fold (\<lambda>p m'. mark_soln m' p) ps m"

section \<open>Storing cells and visiting\<close>

lemma rows_put_cell [simp]: "rows (put_cell m x y c) = rows m"
  and cols_put_cell [simp]: "cols (put_cell m x y c) = cols m"
  and maze_cost_put_cell [simp]: "maze_cost (put_cell m x y c) = maze_cost m"
  and maze_soln_put_cell [simp]: "maze_soln (put_cell m x y c) = maze_soln m"
  by (simp_all add: put_cell_def)

lemma cells_put_cell [simp]:
  "cells (put_cell m x y c) x' y' = (if x' = x \<and> y' = y then c else cells m x' y')"
  by (simp add: put_cell_def)

lemma put_cell_same: "cells m x y = c \<Longrightarrow> put_cell m x y c = m"
  by (auto simp add: put_cell_def)

lemma cell_reach_same: "cell_reach c = v \<Longrightarrow> c\<lparr>cell_reach := v\<rparr> = c"
  by (cases c) simp

lemma visit_cell_new:
  assumes "in_array x y" and "cell_cost (cells m x y) < 0 \<or> c < cell_cost (cells m x y)"
  shows "visit_cell m ns q x y c =
           Inr (put_cell m x y ((cells m x y)\<lparr>cell_reach := TRUE, cell_cost := c\<rparr>),
                ns @ [\<lparr>node_cell = (x, y), node_parent = Some q\<rparr>])"
  using assms by (simp add: visit_cell_def Let_def append_node_def put_cell_def)

lemma visit_cell_old:
  assumes "in_array x y" and "0 \<le> cell_cost (cells m x y)" and "cell_cost (cells m x y) \<le> c"
  shows "visit_cell m ns q x y c =
           Inr (put_cell m x y ((cells m x y)\<lparr>cell_reach := TRUE\<rparr>), ns)"
  using assms by (simp add: visit_cell_def Let_def)

lemma cost_at_put_cell:
  "cost_at (put_cell m (fst p') (snd p') c) p = (if p = p' then cell_cost c else cost_at m p)"
  by (auto simp: cost_at_def prod_eq_iff)

lemma reach_at_put_cell:
  "reach_at (put_cell m (fst p') (snd p') c) p = (if p = p' then cell_reach c else reach_at m p)"
  by (auto simp: reach_at_def prod_eq_iff)

lemma same_frame_put_cell:
  assumes "same_frame m0 m"
    and "cell_x c = cell_x (cells m x y)" and "cell_y c = cell_y (cells m x y)"
    and "cell_soln c = cell_soln (cells m x y)" and "cell_type c = cell_type (cells m x y)"
  shows "same_frame m0 (put_cell m x y c)"
  using assms by (simp add: same_frame_def)

lemma same_frame_grid:
  "same_frame m0 m \<Longrightarrow> in_grid m p = in_grid m0 p"
  "same_frame m0 m \<Longrightarrow> type_at m p = type_at m0 p"
  "same_frame m0 m \<Longrightarrow> is_open m p = is_open m0 p"
  "same_frame m0 m \<Longrightarrow> entrance m p = entrance m0 p"
  by (simp_all add: same_frame_def in_grid_def type_at_def is_open_def entrance_def)

lemma valid_maze_in_array:
  "valid_maze m0 \<Longrightarrow> in_grid m0 p \<Longrightarrow> in_array (fst p) (snd p)"
  by (auto simp: valid_maze_def in_grid_def in_array_def)

lemma valid_maze_coords:
  "valid_maze m0 \<Longrightarrow> in_grid m0 p \<Longrightarrow>
     cell_x (cells m0 (fst p) (snd p)) = fst p \<and> cell_y (cells m0 (fst p) (snd p)) = snd p"
  by (auto simp: valid_maze_def in_grid_def)

lemma queued_append [simp]:
  "queued (ns @ [\<lparr>node_cell = p, node_parent = j\<rparr>]) = insert p (queued ns)"
  by (auto simp: queued_def)

lemma marks_ok_at:
  "marks_ok m0 m ns \<Longrightarrow> in_grid m0 p \<Longrightarrow>
     (if p \<in> queued ns then 0 \<le> cost_at m p \<and> reach_at m p = TRUE
      else cost_at m p = NOTVISIT \<and> reach_at m p = FALSE)"
  unfolding marks_ok_def by blast

lemma expandedD:
  "expanded m0 m ns q \<Longrightarrow> k < q \<Longrightarrow> adjacent (node_cell (ns ! k)) p \<Longrightarrow> is_open m0 p \<Longrightarrow>
     0 \<le> cost_at m p \<and> cost_at m p \<le> cost_at m (node_cell (ns ! k)) + 1"
  unfolding expanded_def by blast

lemma marks_ok_queued_iff:
  "marks_ok m0 m ns \<Longrightarrow> in_grid m0 p \<Longrightarrow> p \<in> queued ns \<longleftrightarrow> 0 \<le> cost_at m p"
  using marks_ok_at [of m0 m ns p] by (auto split: if_splits)

lemma marks_ok_nth:
  "marks_ok m0 m ns \<Longrightarrow> k < length ns \<Longrightarrow>
     is_open m0 (node_cell (ns ! k)) \<and> 0 \<le> cost_at m (node_cell (ns ! k)) \<and>
     node_cell (ns ! k) \<in> queued ns"
  unfolding marks_ok_def queued_def is_open_def
  by (metis (no_types, lifting) image_eqI nth_mem)

text \<open>Appending a node for a cell that had no cost.\<close>

lemma flood_inv_new:
  assumes J: "flood_inv m0 m ns q" and qlt: "q < length ns"
    and adj: "adjacent (node_cell (ns ! q)) p'" and op: "is_open m0 p'"
    and neg: "cost_at m p' < 0"
    and d: "d = cost_at m (node_cell (ns ! q))"
    and m': "m' = put_cell m (fst p') (snd p')
                    ((cells m (fst p') (snd p'))\<lparr>cell_reach := TRUE, cell_cost := d + 1\<rparr>)"
    and ns': "ns' = ns @ [\<lparr>node_cell = p', node_parent = Some q\<rparr>]"
  shows "flood_inv m0 m' ns' q"
proof -
  from J have val: "valid_maze m0" and fr: "same_frame m0 m" and mk: "marks_ok m0 m ns"
    and par: "parents_ok m ns" and lv: "levels_ok m ns q" and ex: "expanded m0 m ns q"
    and ent: "\<forall>p. entrance m0 p \<longrightarrow> cost_at m p = 0"
    by (simp_all add: flood_inv_def)
  from op have grid: "in_grid m0 p'" by (simp add: is_open_def)
  have notq: "p' \<notin> queued ns"
    using marks_ok_queued_iff [OF mk grid] neg by simp
  have cost': "\<And>p. cost_at m' p = (if p = p' then d + 1 else cost_at m p)"
    by (simp add: m' cost_at_put_cell)
  have reach': "\<And>p. reach_at m' p = (if p = p' then TRUE else reach_at m p)"
    by (simp add: m' reach_at_put_cell)
  have old: "\<And>n. n \<in> set ns \<Longrightarrow> cost_at m' (node_cell n) = cost_at m (node_cell n)"
    using notq by (auto simp: cost' queued_def)
  have oldk: "\<And>k. k < length ns \<Longrightarrow> cost_at m' (node_cell (ns ! k)) = cost_at m (node_cell (ns ! k))"
    using old by simp
  have d0: "0 \<le> d" using marks_ok_nth [OF mk qlt] d by simp
  have fr': "same_frame m0 m'"
    unfolding m' by (rule same_frame_put_cell [OF fr]) simp_all
  have mk': "marks_ok m0 m' ns'"
    using mk notq op d0
    by (auto simp: marks_ok_def ns' cost' reach' queued_def)
  have par': "parents_ok m' ns'"
    unfolding parents_ok_def
  proof (intro allI impI)
    fix k assume "k < length ns'"
    then have "k < length ns \<or> k = length ns" by (auto simp: ns')
    then show "case node_parent (ns' ! k) of
          None \<Rightarrow> fst (node_cell (ns' ! k)) = 0 \<and> cost_at m' (node_cell (ns' ! k)) = 0
        | Some j \<Rightarrow> j < k \<and> adjacent (node_cell (ns' ! j)) (node_cell (ns' ! k)) \<and>
                    cost_at m' (node_cell (ns' ! k)) = cost_at m' (node_cell (ns' ! j)) + 1"
    proof (elim disjE)
      assume 1: "k < length ns"
      then have "case node_parent (ns ! k) of
          None \<Rightarrow> fst (node_cell (ns ! k)) = 0 \<and> cost_at m (node_cell (ns ! k)) = 0
        | Some j \<Rightarrow> j < k \<and> adjacent (node_cell (ns ! j)) (node_cell (ns ! k)) \<and>
                    cost_at m (node_cell (ns ! k)) = cost_at m (node_cell (ns ! j)) + 1"
        using par by (simp add: parents_ok_def)
      with 1 show ?thesis
        by (auto simp: ns' nth_append oldk split: option.splits)
    next
      assume 2: "k = length ns"
      then show ?thesis using qlt adj d oldk [OF qlt]
        by (simp add: ns' nth_append cost')
    qed
  qed
  have maps: "map (\<lambda>n. cost_at m' (node_cell n)) ns = map (\<lambda>n. cost_at m (node_cell n)) ns"
    using old by simp
  have costp: "cost_at m' p' = d + 1" by (simp add: cost')
  have lv': "levels_ok m' ns' q"
    using lv qlt d oldk [OF qlt]
    by (auto simp: levels_ok_def ns' maps sorted_append nth_append costp old)
  have ex': "expanded m0 m' ns' q"
    unfolding expanded_def
  proof (intro allI impI)
    fix k p assume k: "k < q" and p: "adjacent (node_cell (ns' ! k)) p \<and> is_open m0 p"
    from k qlt have kl: "k < length ns" by simp
    then have nk: "ns' ! k = ns ! k" by (simp add: ns' nth_append)
    from p nk have *: "0 \<le> cost_at m p \<and> cost_at m p \<le> cost_at m (node_cell (ns ! k)) + 1"
      using expandedD [OF ex k, of p] by simp
    then have "p \<noteq> p'" using neg by auto
    then have "cost_at m' p = cost_at m p" by (simp add: cost')
    then show "0 \<le> cost_at m' p \<and> cost_at m' p \<le> cost_at m' (node_cell (ns' ! k)) + 1"
      using * by (simp add: nk oldk [OF kl])
  qed
  have ent': "\<forall>p. entrance m0 p \<longrightarrow> cost_at m' p = 0"
  proof (intro allI impI)
    fix p assume "entrance m0 p"
    with ent have "cost_at m p = 0" by blast
    with neg have "p \<noteq> p'" by auto
    then show "cost_at m' p = 0" using \<open>cost_at m p = 0\<close> by (simp add: cost')
  qed
  show ?thesis
    using val fr' mk' par' lv' ex' ent' qlt by (simp add: flood_inv_def ns')
qed

text \<open>Visiting an open neighbour of the cell of node \<open>q\<close> with one more than its cost.\<close>

lemma flood_inv_visit:
  assumes J: "flood_inv m0 m ns q" and qlt: "q < length ns"
    and adj: "adjacent (node_cell (ns ! q)) p" and op: "is_open m0 p"
    and d: "d = cost_at m (node_cell (ns ! q))"
    and new: "new = (if cost_at m p < 0 then [\<lparr>node_cell = p, node_parent = Some q\<rparr>] else [])"
  shows "\<exists>m'. visit_cell m ns q (fst p) (snd p) (d + 1) = Inr (m', ns @ new) \<and>
           flood_inv m0 m' (ns @ new) q \<and>
           (\<forall>p'. p' \<noteq> p \<longrightarrow> cost_at m' p' = cost_at m p') \<and>
           (0 \<le> cost_at m p \<longrightarrow> cost_at m' p = cost_at m p) \<and>
           0 \<le> cost_at m' p \<and> cost_at m' p \<le> d + 1"
proof -
  from J have val: "valid_maze m0" and mk: "marks_ok m0 m ns" and lv: "levels_ok m ns q"
    by (simp_all add: flood_inv_def)
  from op have grid: "in_grid m0 p" by (simp add: is_open_def)
  have arr: "in_array (fst p) (snd p)" by (rule valid_maze_in_array [OF val grid])
  have d0: "0 \<le> d" using marks_ok_nth [OF mk qlt] d by simp
  show ?thesis
  proof (cases "cost_at m p < 0")
    case True
    define m' where "m' = put_cell m (fst p) (snd p)
                    ((cells m (fst p) (snd p))\<lparr>cell_reach := TRUE, cell_cost := d + 1\<rparr>)"
    have "visit_cell m ns q (fst p) (snd p) (d + 1) = Inr (m', ns @ new)"
      using True arr by (simp add: visit_cell_new m'_def new cost_at_def)
    moreover have "flood_inv m0 m' (ns @ new) q"
      using flood_inv_new [OF J qlt adj op True d m'_def] True by (simp add: new)
    moreover have "\<And>p'. cost_at m' p' = (if p' = p then d + 1 else cost_at m p')"
      by (simp add: m'_def cost_at_put_cell)
    ultimately show ?thesis using True d0 by auto
  next
    case False
    then have c0: "0 \<le> cost_at m p" by simp
    then have inq: "p \<in> queued ns" using marks_ok_queued_iff [OF mk grid] by simp
    then have r1: "reach_at m p = TRUE" using marks_ok_at [OF mk grid] by simp
    from inq obtain n where n: "n \<in> set ns" "node_cell n = p" by (auto simp: queued_def)
    with lv qlt have le: "cost_at m p \<le> d + 1" by (auto simp: levels_ok_def d)
    have "put_cell m (fst p) (snd p) ((cells m (fst p) (snd p))\<lparr>cell_reach := TRUE\<rparr>) = m"
      using r1 by (simp add: put_cell_same cell_reach_same reach_at_def)
    then have "visit_cell m ns q (fst p) (snd p) (d + 1) = Inr (m, ns @ new)"
      using visit_cell_old [OF arr, of m "d + 1" ns q] c0 le False
      by (simp add: cost_at_def new)
    then show ?thesis using J c0 le False by (auto simp: new)
  qed
qed

lemma flood_right_eq:
  assumes "valid_maze m0" and "same_frame m0 m" and "in_grid m0 (x, y)"
  shows "flood_right m ns q x (y + 1) c =
           (if is_open m0 (x, y + 1) then visit_cell m ns q x (y + 1) c else Inr (m, ns))"
  using assms
  by (auto simp: flood_right_def cell_at_def is_open_def type_at_def in_grid_def
      same_frame_def valid_maze_def in_array_def)

lemma flood_down_eq:
  assumes "valid_maze m0" and "same_frame m0 m" and "in_grid m0 (x, y)"
  shows "flood_down m ns q (x + 1) y c =
           (if is_open m0 (x + 1, y) then visit_cell m ns q (x + 1) y c else Inr (m, ns))"
  using assms
  by (auto simp: flood_down_def cell_at_def is_open_def type_at_def in_grid_def
      same_frame_def valid_maze_def in_array_def)

lemma flood_left_eq:
  assumes "valid_maze m0" and "same_frame m0 m" and "in_grid m0 (x, y)"
  shows "flood_left m ns q x (y - 1) c =
           (if is_open m0 (x, y - 1) then visit_cell m ns q x (y - 1) c else Inr (m, ns))"
  using assms
  by (auto simp: flood_left_def cell_at_def is_open_def type_at_def in_grid_def
      same_frame_def valid_maze_def in_array_def)

lemma flood_up_eq:
  assumes "valid_maze m0" and "same_frame m0 m" and "in_grid m0 (x, y)"
  shows "flood_up m ns q (x - 1) y c =
           (if is_open m0 (x - 1, y) then visit_cell m ns q (x - 1) y c else Inr (m, ns))"
  using assms
  by (auto simp: flood_up_def cell_at_def is_open_def type_at_def in_grid_def
      same_frame_def valid_maze_def in_array_def)

text \<open>One of the four attempts of \<open>flood_node\<close>, at the neighbour \<open>p\<close>.\<close>

lemma flood_inv_attempt:
  assumes J: "flood_inv m0 m ns q" and qlt: "q < length ns"
    and adj: "adjacent (node_cell (ns ! q)) p"
    and d: "d = cost_at m (node_cell (ns ! q))"
    and new: "new = (if is_open m0 p \<and> cost_at m p < 0
                     then [\<lparr>node_cell = p, node_parent = Some q\<rparr>] else [])"
  shows "\<exists>m'. (if is_open m0 p then visit_cell m ns q (fst p) (snd p) (d + 1) else Inr (m, ns))
               = Inr (m', ns @ new) \<and>
           flood_inv m0 m' (ns @ new) q \<and>
           (\<forall>p'. p' \<noteq> p \<longrightarrow> cost_at m' p' = cost_at m p') \<and>
           (0 \<le> cost_at m p \<longrightarrow> cost_at m' p = cost_at m p) \<and>
           (is_open m0 p \<longrightarrow> 0 \<le> cost_at m' p \<and> cost_at m' p \<le> d + 1)"
proof (cases "is_open m0 p")
  case True
  then show ?thesis
    using flood_inv_visit [OF J qlt adj True d refl] by (simp add: new)
next
  case False
  then show ?thesis using J by (simp add: new)
qed

lemma adjacent_iff:
  "adjacent (r, c) p \<longleftrightarrow> p = (r, c + 1) \<or> p = (r + 1, c) \<or> p = (r, c - 1) \<or> p = (r - 1, c)"
  by (cases p) (auto simp: adjacent_def)

lemma levels_ok_Suc:
  assumes "levels_ok m ns q" and "q < length ns"
  shows "levels_ok m ns (Suc q)"
proof -
  from assms have srt: "sorted (map (\<lambda>n. cost_at m (node_cell n)) ns)"
    and fr: "\<forall>n\<in>set ns. cost_at m (node_cell n) \<le> cost_at m (node_cell (ns ! q)) + 1"
    by (simp_all add: levels_ok_def)
  {
    assume s: "Suc q < length ns"
    have "map (\<lambda>n. cost_at m (node_cell n)) ns ! q \<le> map (\<lambda>n. cost_at m (node_cell n)) ns ! Suc q"
      using srt s by (intro sorted_nth_mono) simp_all
    then have "cost_at m (node_cell (ns ! q)) \<le> cost_at m (node_cell (ns ! Suc q))"
      using s by simp
    then have "\<forall>n\<in>set ns. cost_at m (node_cell n) \<le> cost_at m (node_cell (ns ! Suc q)) + 1"
      using fr by fastforce
  }
  then show ?thesis using srt by (simp add: levels_ok_def)
qed

lemma attempt_okI:
  assumes J: "flood_inv m0 m ns q" and qlt: "q < length ns"
    and adj: "adjacent (node_cell (ns ! q)) p"
    and d: "d = cost_at m (node_cell (ns ! q))"
  shows "\<exists>m'. (if is_open m0 p then visit_cell m ns q (fst p) (snd p) (d + 1) else Inr (m, ns))
               = Inr (m', ns @ fresh m0 m q p) \<and> attempt_ok m0 m ns q p d m'"
  unfolding attempt_ok_def
  by (rule flood_inv_attempt [OF J qlt adj d]) (simp add: fresh_def)


lemma flood_inv_cell:
  assumes "flood_inv m0 m ns q" and "q < length ns" and "node_cell (ns ! q) = (r, c)"
  shows "valid_maze m0" and "same_frame m0 m" and "in_grid m0 (r, c)"
    and "is_open m0 (r, c)" and "0 \<le> cost_at m (r, c)"
  using assms marks_ok_nth [of m0 m ns q]
  by (simp_all add: flood_inv_def is_open_def)

lemma attempt_right:
  assumes J: "flood_inv m0 m ns q" and qlt: "q < length ns"
    and rc: "node_cell (ns ! q) = (r, c)" and d: "d = cost_at m (r, c)"
  shows "\<exists>m'. flood_right m ns q r (c + 1) (d + 1) = Inr (m', ns @ fresh m0 m q (r, c + 1)) \<and>
           attempt_ok m0 m ns q (r, c + 1) d m'"
proof -
  note c = flood_inv_cell [OF J qlt rc]
  have adj: "adjacent (node_cell (ns ! q)) (r, c + 1)" by (simp add: rc adjacent_def)
  show ?thesis
    using attempt_okI [OF J qlt adj, of d] d rc
    by (cases "is_open m0 (r, c + 1)") (simp_all add: flood_right_eq [OF c(1) c(2) c(3)])
qed

lemma attempt_down:
  assumes J: "flood_inv m0 m ns q" and qlt: "q < length ns"
    and rc: "node_cell (ns ! q) = (r, c)" and d: "d = cost_at m (r, c)"
  shows "\<exists>m'. flood_down m ns q (r + 1) c (d + 1) = Inr (m', ns @ fresh m0 m q (r + 1, c)) \<and>
           attempt_ok m0 m ns q (r + 1, c) d m'"
proof -
  note c = flood_inv_cell [OF J qlt rc]
  have adj: "adjacent (node_cell (ns ! q)) (r + 1, c)" by (simp add: rc adjacent_def)
  show ?thesis
    using attempt_okI [OF J qlt adj, of d] d rc
    by (cases "is_open m0 (r + 1, c)") (simp_all add: flood_down_eq [OF c(1) c(2) c(3)])
qed

lemma attempt_left:
  assumes J: "flood_inv m0 m ns q" and qlt: "q < length ns"
    and rc: "node_cell (ns ! q) = (r, c)" and d: "d = cost_at m (r, c)"
  shows "\<exists>m'. flood_left m ns q r (c - 1) (d + 1) = Inr (m', ns @ fresh m0 m q (r, c - 1)) \<and>
           attempt_ok m0 m ns q (r, c - 1) d m'"
proof -
  note c = flood_inv_cell [OF J qlt rc]
  have adj: "adjacent (node_cell (ns ! q)) (r, c - 1)" by (simp add: rc adjacent_def)
  show ?thesis
    using attempt_okI [OF J qlt adj, of d] d rc
    by (cases "is_open m0 (r, c - 1)") (simp_all add: flood_left_eq [OF c(1) c(2) c(3)])
qed

lemma attempt_up:
  assumes J: "flood_inv m0 m ns q" and qlt: "q < length ns"
    and rc: "node_cell (ns ! q) = (r, c)" and d: "d = cost_at m (r, c)"
  shows "\<exists>m'. flood_up m ns q (r - 1) c (d + 1) = Inr (m', ns @ fresh m0 m q (r - 1, c)) \<and>
           attempt_ok m0 m ns q (r - 1, c) d m'"
proof -
  note c = flood_inv_cell [OF J qlt rc]
  have adj: "adjacent (node_cell (ns ! q)) (r - 1, c)" by (simp add: rc adjacent_def)
  show ?thesis
    using attempt_okI [OF J qlt adj, of d] d rc
    by (cases "is_open m0 (r - 1, c)") (simp_all add: flood_up_eq [OF c(1) c(2) c(3)])
qed

text \<open>After an attempt, node \<open>q\<close> is still the same node with the same cost.\<close>

lemma attempt_ok_next:
  assumes a: "attempt_ok m0 m ns q p d m'" and qlt: "q < length ns"
    and rc: "node_cell (ns ! q) = (r, c)" and d: "d = cost_at m (r, c)" and d0: "0 \<le> d"
  shows "flood_inv m0 m' (ns @ fresh m0 m q p) q" and "q < length (ns @ fresh m0 m q p)"
    and "node_cell ((ns @ fresh m0 m q p) ! q) = (r, c)" and "d = cost_at m' (r, c)"
    and "\<And>p'. 0 \<le> cost_at m p' \<Longrightarrow> cost_at m' p' = cost_at m p'"
    and "\<And>p'. p' \<noteq> p \<Longrightarrow> cost_at m' p' = cost_at m p'"
    and "is_open m0 p \<Longrightarrow> 0 \<le> cost_at m' p \<and> cost_at m' p \<le> d + 1"
proof -
  show "flood_inv m0 m' (ns @ fresh m0 m q p) q" using a by (simp add: attempt_ok_def)
  show "q < length (ns @ fresh m0 m q p)" using qlt by simp
  show "node_cell ((ns @ fresh m0 m q p) ! q) = (r, c)" using qlt rc by (simp add: nth_append)
  show keep: "\<And>p'. 0 \<le> cost_at m p' \<Longrightarrow> cost_at m' p' = cost_at m p'"
    using a unfolding attempt_ok_def by metis
  show "d = cost_at m' (r, c)" using keep [of "(r, c)"] d d0 by simp
  show "\<And>p'. p' \<noteq> p \<Longrightarrow> cost_at m' p' = cost_at m p'"
    using a unfolding attempt_ok_def by blast
  show "is_open m0 p \<Longrightarrow> 0 \<le> cost_at m' p \<and> cost_at m' p \<le> d + 1"
    using a unfolding attempt_ok_def by blast
qed

text \<open>The nodes that expanding the node at \<open>(r, c)\<close> appends, in the order of the attempts.\<close>

lemma flood_inv_node:
  assumes J: "flood_inv m0 m ns q" and qlt: "q < length ns"
    and rc: "node_cell (ns ! q) = (r, c)"
  shows "\<exists>m'. flood_node m ns q =
             Inr (m', ns @ fresh m0 m q (r, c + 1) @ fresh m0 m q (r + 1, c) @
                         fresh m0 m q (r, c - 1) @ fresh m0 m q (r - 1, c)) \<and>
           flood_inv m0 m'
             (ns @ fresh m0 m q (r, c + 1) @ fresh m0 m q (r + 1, c) @
                   fresh m0 m q (r, c - 1) @ fresh m0 m q (r - 1, c)) (Suc q) \<and>
           (\<forall>p. 0 \<le> cost_at m p \<longrightarrow> cost_at m' p = cost_at m p)"
proof -
  define d where "d = cost_at m (r, c)"
  note c = flood_inv_cell [OF J qlt rc]
  have d0: "0 \<le> d" using c(5) by (simp add: d_def)
  have arr: "in_array r c" using valid_maze_in_array [OF c(1) c(3)] by simp
  have xy: "cell_x (cells m r c) = r" "cell_y (cells m r c) = c"
    using valid_maze_coords [OF c(1) c(3)] c(2) by (simp_all add: same_frame_def)
  \<comment> \<open>right\<close>
  define ns1 where "ns1 = ns @ fresh m0 m q (r, c + 1)"
  from attempt_right [OF J qlt rc d_def]
  obtain m1 where s1: "flood_right m ns q r (c + 1) (d + 1) = Inr (m1, ns1)"
    and a1: "attempt_ok m0 m ns q (r, c + 1) d m1"
    unfolding ns1_def by blast
  note n1 = attempt_ok_next [OF a1 qlt rc d_def d0, folded ns1_def]
  \<comment> \<open>down\<close>
  define ns2 where "ns2 = ns1 @ fresh m0 m1 q (r + 1, c)"
  from attempt_down [OF n1(1) n1(2) n1(3) n1(4)]
  obtain m2 where s2: "flood_down m1 ns1 q (r + 1) c (d + 1) = Inr (m2, ns2)"
    and a2: "attempt_ok m0 m1 ns1 q (r + 1, c) d m2"
    unfolding ns2_def by blast
  note n2 = attempt_ok_next [OF a2 n1(2) n1(3) n1(4) d0, folded ns2_def]
  \<comment> \<open>left\<close>
  define ns3 where "ns3 = ns2 @ fresh m0 m2 q (r, c - 1)"
  from attempt_left [OF n2(1) n2(2) n2(3) n2(4)]
  obtain m3 where s3: "flood_left m2 ns2 q r (c - 1) (d + 1) = Inr (m3, ns3)"
    and a3: "attempt_ok m0 m2 ns2 q (r, c - 1) d m3"
    unfolding ns3_def by blast
  note n3 = attempt_ok_next [OF a3 n2(2) n2(3) n2(4) d0, folded ns3_def]
  \<comment> \<open>up\<close>
  define ns4 where "ns4 = ns3 @ fresh m0 m3 q (r - 1, c)"
  from attempt_up [OF n3(1) n3(2) n3(3) n3(4)]
  obtain m4 where s4: "flood_up m3 ns3 q (r - 1) c (d + 1) = Inr (m4, ns4)"
    and a4: "attempt_ok m0 m3 ns3 q (r - 1, c) d m4"
    unfolding ns4_def by blast
  note n4 = attempt_ok_next [OF a4 n3(2) n3(3) n3(4) d0, folded ns4_def]
  \<comment> \<open>the costs that the later attempts read are those of the start\<close>
  have c2: "cost_at m1 (r + 1, c) = cost_at m (r + 1, c)" using n1(6) by simp
  have c3: "cost_at m2 (r, c - 1) = cost_at m (r, c - 1)" using n1(6) n2(6) by simp
  have c4: "cost_at m3 (r - 1, c) = cost_at m (r - 1, c)" using n1(6) n2(6) n3(6) by simp
  have keep: "cost_at m4 p = cost_at m p" if "0 \<le> cost_at m p" for p
    using that n1(5) [of p] n2(5) [of p] n3(5) [of p] n4(5) [of p] by simp
  have ns4_eq: "ns4 = ns @ fresh m0 m q (r, c + 1) @ fresh m0 m q (r + 1, c) @
                         fresh m0 m q (r, c - 1) @ fresh m0 m q (r - 1, c)"
    by (simp add: ns4_def ns3_def ns2_def ns1_def fresh_def c2 c3 c4)
  have node: "flood_node m ns q = Inr (m4, ns4)"
    using qlt rc arr xy s1 s2 s3 s4
    by (simp add: flood_node_def node_at_def cell_at_def and_then_def Let_def d_def cost_at_def)
  have exq: "0 \<le> cost_at m4 p \<and> cost_at m4 p \<le> d + 1" if "adjacent (r, c) p" "is_open m0 p" for p
  proof -
    from that(1) consider "p = (r, c + 1)" | "p = (r + 1, c)" | "p = (r, c - 1)" | "p = (r - 1, c)"
      by (auto simp: adjacent_iff)
    then show ?thesis
    proof cases
      case 1 then show ?thesis
        using n1(7) that(2) n2(5) [of p] n3(5) [of p] n4(5) [of p] by simp
    next
      case 2 then show ?thesis using n2(7) that(2) n3(5) [of p] n4(5) [of p] by simp
    next
      case 3 then show ?thesis using n3(7) that(2) n4(5) [of p] by simp
    next
      case 4 then show ?thesis using n4(7) that(2) by simp
    qed
  qed
  have "expanded m0 m4 ns4 (Suc q)"
    unfolding expanded_def
  proof (intro allI impI)
    fix k p assume k: "k < Suc q" and p: "adjacent (node_cell (ns4 ! k)) p \<and> is_open m0 p"
    show "0 \<le> cost_at m4 p \<and> cost_at m4 p \<le> cost_at m4 (node_cell (ns4 ! k)) + 1"
    proof (cases "k = q")
      case True
      then show ?thesis using exq [of p] p n4(3) n4(4) by simp
    next
      case False
      with k have "k < q" by simp
      then show ?thesis using expandedD [of m0 m4 ns4 q k p] n4(1) p by (simp add: flood_inv_def)
    qed
  qed
  then have "flood_inv m0 m4 ns4 (Suc q)"
    using n4(1) n4(2) levels_ok_Suc [of m4 ns4 q] by (simp add: flood_inv_def)
  then show ?thesis using node keep ns4_eq by auto
qed

section \<open>The flood returns\<close>

lemma grid_finite: "finite {p. in_grid m0 p}"
proof -
  have "{p. in_grid m0 p} = {0..<rows m0} \<times> {0..<cols m0}"
    by (auto simp: in_grid_def)
  then show ?thesis by simp
qed

lemma grid_card: "card {p. in_grid m0 p} = nat (rows m0) * nat (cols m0)"
proof -
  have "{p. in_grid m0 p} = {0..<rows m0} \<times> {0..<cols m0}"
    by (auto simp: in_grid_def)
  then show ?thesis by (simp add: card_cartesian_product)
qed

text \<open>There is at most one node for each cell of the grid.\<close>

lemma marks_ok_length:
  assumes "marks_ok m0 m ns"
  shows "length ns \<le> nat (rows m0) * nat (cols m0)"
proof -
  from assms have dist: "distinct (map node_cell ns)"
    and sub: "queued ns \<subseteq> {p. in_grid m0 p}"
    by (auto simp: marks_ok_def queued_def is_open_def)
  have "length ns = card (queued ns)"
    using distinct_card [OF dist] by (simp add: queued_def)
  also have "\<dots> \<le> card {p. in_grid m0 p}"
    by (rule card_mono [OF grid_finite sub])
  finally show ?thesis by (simp add: grid_card)
qed

lemma recursive_flood_None [simp]: "recursive_flood m ns None = Some (Inr (m, ns))"
  by (simp add: recursive_flood.simps)

lemma recursive_flood_Some:
  "flood_node m ns q = Inr (m', ns') \<Longrightarrow>
     recursive_flood m ns (Some q) = recursive_flood m' ns' (node_next ns' q)"
  by (subst recursive_flood.simps) simp

lemma recursive_flood_returns:
  assumes "flood_inv m0 m ns q" and "q < length ns"
  shows "\<exists>m' ns'. recursive_flood m ns (Some q) = Some (Inr (m', ns')) \<and>
           flood_inv m0 m' ns' (length ns') \<and> length ns \<le> length ns' \<and>
           (\<forall>p. 0 \<le> cost_at m p \<longrightarrow> cost_at m' p = cost_at m p)"
  using assms
proof (induction "nat (rows m0) * nat (cols m0) - q" arbitrary: m ns q rule: less_induct)
  case less
  obtain r c where rc: "node_cell (ns ! q) = (r, c)" by (cases "node_cell (ns ! q)")
  from flood_inv_node [OF less.prems rc]
  obtain m1 ns1 where node: "flood_node m ns q = Inr (m1, ns1)"
    and J1: "flood_inv m0 m1 ns1 (Suc q)" and len: "length ns \<le> length ns1"
    and keep1: "\<forall>p. 0 \<le> cost_at m p \<longrightarrow> cost_at m1 p = cost_at m p"
    by fastforce
  have bound: "length ns \<le> nat (rows m0) * nat (cols m0)"
    using less.prems(1) marks_ok_length [of m0 m ns] by (simp add: flood_inv_def)
  show ?case
  proof (cases "Suc q < length ns1")
    case True
    have "nat (rows m0) * nat (cols m0) - Suc q < nat (rows m0) * nat (cols m0) - q"
      using bound less.prems(2) by simp
    from less.hyps [OF this J1 True]
    obtain m' ns' where "recursive_flood m1 ns1 (Some (Suc q)) = Some (Inr (m', ns'))"
      and "flood_inv m0 m' ns' (length ns')" and "length ns1 \<le> length ns'"
      and "\<forall>p. 0 \<le> cost_at m1 p \<longrightarrow> cost_at m' p = cost_at m1 p"
      by blast
    then show ?thesis
      using True len keep1 by (simp add: recursive_flood_Some [OF node] node_next_def)
  next
    case False
    with J1 have "Suc q = length ns1" by (simp add: flood_inv_def)
    then show ?thesis
      using J1 len keep1 by (simp add: recursive_flood_Some [OF node] node_next_def)
  qed
qed

section \<open>The entrances\<close>

lemma sorted_const: "\<forall>x\<in>set xs. x = (c::int) \<Longrightarrow> sorted xs"
  by (induction xs) auto

lemma entries_inv_flood_inv:
  assumes "entries_inv m0 m ns (cols m0)"
  shows "flood_inv m0 m ns 0"
proof -
  from assms have E: "\<forall>n\<in>set ns. node_parent n = None \<and> fst (node_cell n) = 0 \<and>
         cost_at m (node_cell n) = 0"
    by (simp add: entries_inv_def)
  have "parents_ok m ns" using E by (simp add: parents_ok_def)
  moreover have "sorted (map (\<lambda>n. cost_at m (node_cell n)) ns)"
    using E by (intro sorted_const [of _ 0]) simp
  then have "levels_ok m ns 0" using E by (simp add: levels_ok_def)
  moreover have "expanded m0 m ns 0" by (simp add: expanded_def)
  moreover have "cost_at m p = 0" if "entrance m0 p" for p
  proof -
    from that have "snd p < cols m0" by (simp add: entrance_def is_open_def in_grid_def)
    with that assms have "p \<in> queued ns" unfolding entries_inv_def by blast
    with E show ?thesis by (auto simp: queued_def)
  qed
  ultimately show ?thesis using assms by (simp add: flood_inv_def entries_inv_def)
qed

lemma entries_inv_start:
  assumes "valid_maze m0"
  shows "entries_inv m0 m0 [] 0"
  using assms
  by (auto simp: entries_inv_def same_frame_def marks_ok_def queued_def valid_maze_def
      in_grid_def cost_at_def reach_at_def entrance_def is_open_def)

lemma entries_inv_wall:
  assumes E: "entries_inv m0 m ns y" and y: "y < cols m0"
    and w: "cell_type (cells m 0 y) \<noteq> PATH"
  shows "entries_inv m0 m ns (y + 1)"
proof -
  from E have fr: "same_frame m0 m" by (simp add: entries_inv_def)
  have "p \<in> queued ns" if "entrance m0 p" "snd p < y + 1" for p
  proof (cases "snd p < y")
    case True
    then show ?thesis using E that(1) unfolding entries_inv_def by blast
  next
    case False
    with that have "p = (0, y)" by (auto simp: entrance_def prod_eq_iff)
    with that(1) w fr show ?thesis
      by (simp add: entrance_def is_open_def type_at_def same_frame_def)
  qed
  then show ?thesis using E y by (fastforce simp: entries_inv_def)
qed

lemma entries_inv_open:
  assumes E: "entries_inv m0 m ns y" and y: "y < cols m0"
    and o: "cell_type (cells m 0 y) = PATH"
    and m': "m' = put_cell m 0 y ((cells m 0 y)\<lparr>cell_reach := TRUE, cell_cost := FALSE\<rparr>)"
    and ns': "ns' = ns @ [\<lparr>node_cell = (0, y), node_parent = None\<rparr>]"
  shows "entries_inv m0 m' ns' (y + 1)"
proof -
  from E have val: "valid_maze m0" and fr: "same_frame m0 m" and y0: "0 \<le> y"
    and mk: "marks_ok m0 m ns"
    and nd: "\<forall>n\<in>set ns. node_parent n = None \<and> fst (node_cell n) = 0 \<and> snd (node_cell n) < y \<and>
         cost_at m (node_cell n) = 0"
    by (simp_all add: entries_inv_def)
  have op: "is_open m0 (0, y)"
    using val fr y y0 o
    by (simp add: is_open_def in_grid_def type_at_def same_frame_def valid_maze_def)
  have notq: "(0, y) \<notin> queued ns"
  proof
    assume "(0, y) \<in> queued ns"
    then obtain n where "n \<in> set ns" "node_cell n = (0, y)" by (auto simp: queued_def)
    with nd have "snd (node_cell n) < y" by blast
    with \<open>node_cell n = (0, y)\<close> show False by simp
  qed
  have cost': "\<And>p. cost_at m' p = (if p = (0, y) then 0 else cost_at m p)"
    using cost_at_put_cell [of m "(0, y)"] by (simp add: m')
  have reach': "\<And>p. reach_at m' p = (if p = (0, y) then TRUE else reach_at m p)"
    using reach_at_put_cell [of m "(0, y)"] by (simp add: m')
  have fr': "same_frame m0 m'"
    unfolding m' by (rule same_frame_put_cell [OF fr]) simp_all
  have mk': "marks_ok m0 m' ns'"
    using mk notq op
    by (auto simp: marks_ok_def ns' cost' reach' queued_def)
  have nd': "\<forall>n\<in>set ns'. node_parent n = None \<and> fst (node_cell n) = 0 \<and>
         snd (node_cell n) < y + 1 \<and> cost_at m' (node_cell n) = 0"
    using nd by (auto simp: ns' cost')
  have "p \<in> queued ns'" if "entrance m0 p" "snd p < y + 1" for p
  proof (cases "snd p < y")
    case True
    then have "p \<in> queued ns" using E that(1) unfolding entries_inv_def by blast
    then show ?thesis by (simp add: ns')
  next
    case False
    with that have "p = (0, y)" by (auto simp: entrance_def prod_eq_iff)
    then show ?thesis by (simp add: ns')
  qed
  then show ?thesis
    using val fr' y y0 mk' nd' unfolding entries_inv_def by simp
qed

lemma find_entries_returns:
  assumes "entries_inv m0 m ns y"
  shows "\<exists>m' ns'. find_entries m 0 y ns (cols m0 - y) = Inr (m', ns') \<and>
           entries_inv m0 m' ns' (cols m0)"
  using assms
proof (induction "nat (cols m0 - y)" arbitrary: m ns y rule: less_induct)
  case less
  from less.prems have val: "valid_maze m0" and y0: "0 \<le> y" and yc: "y \<le> cols m0"
    by (simp_all add: entries_inv_def)
  show ?case
  proof (cases "y = cols m0")
    case True
    then show ?thesis using less.prems by (simp add: find_entries.simps)
  next
    case False
    with yc have y: "y < cols m0" by simp
    then have arr: "in_array 0 y" and lim: "cols m0 - y \<noteq> 0"
      and dec: "nat (cols m0 - (y + 1)) < nat (cols m0 - y)"
      and lim': "cols m0 - y - 1 = cols m0 - (y + 1)"
      using val y0 by (simp_all add: in_array_def valid_maze_def)
    show ?thesis
    proof (cases "cell_type (cells m 0 y) = PATH")
      case True
      define m' where "m' = put_cell m 0 y ((cells m 0 y)\<lparr>cell_reach := TRUE, cell_cost := FALSE\<rparr>)"
      define ns' where "ns' = ns @ [\<lparr>node_cell = (0, y), node_parent = None\<rparr>]"
      have step: "find_entries m 0 y ns (cols m0 - y) = find_entries m' 0 (y + 1) ns' (cols m0 - (y + 1))"
        using arr lim True
        by (subst find_entries.simps)
          (simp add: Let_def m'_def ns'_def prepend_def append_node_def lim' put_cell_def)
      from less.hyps [OF dec entries_inv_open [OF less.prems y True m'_def ns'_def]]
      show ?thesis by (simp add: step)
    next
      case False
      have step: "find_entries m 0 y ns (cols m0 - y) = find_entries m 0 (y + 1) ns (cols m0 - (y + 1))"
        using arr lim False by (subst find_entries.simps) (simp add: lim')
      from less.hyps [OF dec entries_inv_wall [OF less.prems y False]]
      show ?thesis by (simp add: step)
    qed
  qed
qed

text \<open>The first two statements of \<open>traverse_maze\<close> on a valid grid.\<close>

lemma flood_maze_returns:
  assumes "valid_maze m0"
  shows "\<exists>m' ns'. flood_maze m0 = Some (Inr (m', ns')) \<and> flood_inv m0 m' ns' (length ns')"
proof -
  from find_entries_returns [OF entries_inv_start [OF assms]]
  obtain m1 ns1 where e: "find_entries m0 0 0 [] (cols m0) = Inr (m1, ns1)"
    and E: "entries_inv m0 m1 ns1 (cols m0)"
    by auto
  note J = entries_inv_flood_inv [OF E]
  show ?thesis
  proof (cases "ns1 = []")
    case True
    then show ?thesis using e J by (simp add: flood_maze_def list_head_def)
  next
    case False
    then have "0 < length ns1" by simp
    from recursive_flood_returns [OF J this] show ?thesis
      using e False by (auto simp: flood_maze_def list_head_def)
  qed
qed

section \<open>The costs are the shortest distances\<close>

lemma adjacent_sym: "adjacent p p' \<Longrightarrow> adjacent p' p"
  by (simp add: adjacent_def abs_minus_commute)

lemma queued_nth: "p \<in> queued ns \<Longrightarrow> \<exists>k<length ns. node_cell (ns ! k) = p"
  by (auto simp: queued_def in_set_conv_nth)

lemma open_path_hd: "open_path m ps \<Longrightarrow> is_open m (hd ps)"
  by (induction m ps rule: open_path.induct) auto

lemma flood_inv_entrance: "flood_inv m0 m ns q \<Longrightarrow> entrance m0 p \<Longrightarrow> cost_at m p = 0"
  unfolding flood_inv_def by blast

text \<open>A cell at the end of \<open>n\<close> steps from an entrance has a cost of at most \<open>n\<close>.\<close>

lemma flood_complete:
  assumes J: "flood_inv m0 m ns (length ns)"
  shows "open_path m0 ps \<Longrightarrow> entrance m0 (last ps) \<Longrightarrow>
           0 \<le> cost_at m (hd ps) \<and> cost_at m (hd ps) < int (length ps)"
proof (induction ps)
  case Nil
  then show ?case by simp
next
  case (Cons p ps)
  show ?case
  proof (cases ps)
    case Nil
    with Cons.prems show ?thesis using flood_inv_entrance [OF J, of p] by simp
  next
    case (Cons p' ps')
    with Cons.prems have op: "is_open m0 p" and adj: "adjacent p p'"
      and path: "open_path m0 ps" and last: "entrance m0 (last ps)"
      by simp_all
    from Cons.IH [OF path last] Cons
    have IH: "0 \<le> cost_at m p'" "cost_at m p' < int (length ps)" by simp_all
    from J have mk: "marks_ok m0 m ns" and ex: "expanded m0 m ns (length ns)"
      by (simp_all add: flood_inv_def)
    have "is_open m0 p'" using open_path_hd [OF path] Cons by simp
    then have "p' \<in> queued ns"
      using marks_ok_queued_iff [OF mk, of p'] IH(1) by (simp add: is_open_def)
    then obtain k where k: "k < length ns" "node_cell (ns ! k) = p'"
      using queued_nth by blast
    from expandedD [OF ex k(1), of p] adjacent_sym [OF adj] op k(2)
    have "0 \<le> cost_at m p \<and> cost_at m p \<le> cost_at m p' + 1" by simp
    with IH show ?thesis by simp
  qed
qed

text \<open>The parent links of every node lead to a root.\<close>

lemma chain_exists:
  assumes "parents_ok m ns"
  shows "k < length ns \<Longrightarrow> \<exists>ps. chain ns k ps"
proof (induction k rule: less_induct)
  case (less k)
  show ?case
  proof (cases "node_parent (ns ! k)")
    case None
    then show ?thesis using less.prems chain.root by blast
  next
    case (Some j)
    with assms less.prems have "j < k" by (auto simp: parents_ok_def split: option.splits)
    with less.IH [of j] less.prems obtain ps where "chain ns j ps" by auto
    then show ?thesis using less.prems Some chain.link by blast
  qed
qed

lemma open_path_Cons:
  "ps \<noteq> [] \<Longrightarrow> open_path m (p # ps) = (is_open m p \<and> adjacent p (hd ps) \<and> open_path m ps)"
  by (cases ps) simp_all

lemma open_path_nonempty: "open_path m ps \<Longrightarrow> ps \<noteq> []"
  by auto

lemma parents_okD:
  "parents_ok m ns \<Longrightarrow> k < length ns \<Longrightarrow> node_parent (ns ! k) = None \<Longrightarrow>
     fst (node_cell (ns ! k)) = 0 \<and> cost_at m (node_cell (ns ! k)) = 0"
  "parents_ok m ns \<Longrightarrow> k < length ns \<Longrightarrow> node_parent (ns ! k) = Some j \<Longrightarrow>
     j < k \<and> adjacent (node_cell (ns ! j)) (node_cell (ns ! k)) \<and>
     cost_at m (node_cell (ns ! k)) = cost_at m (node_cell (ns ! j)) + 1"
  by (auto simp: parents_ok_def split: option.splits)

text \<open>
  The chain of a node is a route from its cell back to an entrance that makes as many
  steps as the cell costs; the costs fall along it, so no cell occurs twice.
\<close>

lemma chain_route:
  "chain ns k ps \<Longrightarrow> flood_inv m0 m ns q \<Longrightarrow>
           k < length ns \<and> hd ps = node_cell (ns ! k) \<and> open_path m0 ps \<and>
           entrance m0 (last ps) \<and> int (length ps) = cost_at m (node_cell (ns ! k)) + 1 \<and>
           (\<forall>p\<in>set ps. cost_at m p \<le> cost_at m (node_cell (ns ! k))) \<and> distinct ps \<and>
           set ps \<subseteq> queued ns"
proof (induction rule: chain.induct)
  case (root k ns)
  note J = root.prems
  from J have mk: "marks_ok m0 m ns" and par: "parents_ok m ns"
    by (simp_all add: flood_inv_def)
  from marks_ok_nth [OF mk root(1)] parents_okD(1) [OF par root(1) root(2)] root(1)
  show ?case by (simp add: entrance_def)
next
  case (link k ns j ps)
  note J = link.prems
  note IH = link.IH [OF J]
  from J have mk: "marks_ok m0 m ns" and par: "parents_ok m ns"
    by (simp_all add: flood_inv_def)
  note pk = parents_okD(2) [OF par link(1) link(2)]
  note nk = marks_ok_nth [OF mk link(1)]
  from IH have ne: "ps \<noteq> []" by auto
  have "adjacent (node_cell (ns ! k)) (hd ps)"
    using pk IH by (simp add: adjacent_sym)
  then have "open_path m0 (node_cell (ns ! k) # ps)"
    using nk IH by (simp add: open_path_Cons [OF ne])
  moreover have "node_cell (ns ! k) \<notin> set ps"
    using IH pk by auto
  ultimately show ?case
    using IH link(1) pk nk ne by auto
qed

text \<open>After the flood the costs are the shortest distances to an entrance.\<close>

lemma flood_shortest:
  assumes J: "flood_inv m0 m ns (length ns)" and grid: "in_grid m0 p"
  shows "(cost_at m p \<noteq> NOTVISIT \<longrightarrow> 0 \<le> cost_at m p \<and> shortest m0 p (nat (cost_at m p)))"
    and "(\<exists>ps. route m0 ps p) \<longleftrightarrow> 0 \<le> cost_at m p"
    and "reach_at m p \<noteq> 0 \<longleftrightarrow> 0 \<le> cost_at m p"
proof -
  from J have mk: "marks_ok m0 m ns" and par: "parents_ok m ns"
    by (simp_all add: flood_inv_def)
  note at = marks_ok_at [OF mk grid]
  have far: "cost_at m p < int (length ps)" "0 \<le> cost_at m p" if "route m0 ps p" for ps
    using flood_complete [OF J, of ps] that by (simp_all add: route_def)
  have near: "\<exists>ps. route m0 ps p \<and> int (length ps) = cost_at m p + 1" if "0 \<le> cost_at m p"
  proof -
    from that at have "p \<in> queued ns" by (auto split: if_splits)
    then obtain k where k: "k < length ns" "node_cell (ns ! k) = p"
      using queued_nth by blast
    from chain_exists [OF par k(1)] obtain ps where "chain ns k ps" by blast
    from chain_route [OF this J] k(2) show ?thesis by (auto simp: route_def)
  qed
  show "(\<exists>ps. route m0 ps p) \<longleftrightarrow> 0 \<le> cost_at m p"
    using far(2) near by blast
  show "reach_at m p \<noteq> 0 \<longleftrightarrow> 0 \<le> cost_at m p"
    using at by (auto split: if_splits)
  show "cost_at m p \<noteq> NOTVISIT \<longrightarrow> 0 \<le> cost_at m p \<and> shortest m0 p (nat (cost_at m p))"
  proof
    assume "cost_at m p \<noteq> NOTVISIT"
    with at have c0: "0 \<le> cost_at m p" by (auto split: if_splits)
    from near [OF c0] obtain ps where "route m0 ps p" "int (length ps) = cost_at m p + 1"
      by blast
    then have "route m0 ps p \<and> length ps = Suc (nat (cost_at m p))" using c0 by auto
    moreover have "nat (cost_at m p) < length ps'" if "route m0 ps' p" for ps'
      using far(1) [OF that] c0 by auto
    ultimately show "0 \<le> cost_at m p \<and> shortest m0 p (nat (cost_at m p))"
      using c0 unfolding shortest_def by blast
  qed
qed

section \<open>The exit selector\<close>

lemma exit_inv_None [simp]:
  "exit_inv m y None cost \<longleftrightarrow> cost < 0 \<and> (\<forall>j<y. \<not> exit_candidate m j)"
  by (simp add: exit_inv_def)

lemma exit_inv_Some [simp]:
  "exit_inv m y (Some e) cost \<longleftrightarrow>
     fst e = rows m - 1 \<and> snd e < y \<and> exit_candidate m (snd e) \<and>
     cost = cost_at m e \<and> 0 \<le> cost \<and>
     (\<forall>j<y. exit_candidate m j \<longrightarrow> cost \<le> cost_at m (rows m - 1, j)) \<and>
     (\<forall>j<snd e. exit_candidate m j \<longrightarrow> cost < cost_at m (rows m - 1, j))"
  by (simp add: exit_inv_def)

lemma exit_inv_take:
  assumes inv: "exit_inv m y exit cost" and cand: "exit_candidate m y"
    and cc: "cc = cost_at m (rows m - 1, y)" and cc0: "0 \<le> cc" and better: "cost < 0 \<or> cc < cost"
  shows "exit_inv m (y + 1) (Some (rows m - 1, y)) cc"
proof -
  have before: "cc < cost_at m (rows m - 1, j)" if "j < y" "exit_candidate m j" for j
  proof (cases exit)
    case None
    with inv that show ?thesis by simp
  next
    case (Some e)
    with inv have "cost \<le> cost_at m (rows m - 1, j)" and "0 \<le> cost" using that by auto
    with better show ?thesis by simp
  qed
  have upto: "cc \<le> cost_at m (rows m - 1, j)" if "j < y + 1" "exit_candidate m j" for j
  proof (cases "j < y")
    case True
    then show ?thesis using before [OF True that(2)] by simp
  next
    case False
    with that have "j = y" by simp
    then show ?thesis by (simp add: cc)
  qed
  show ?thesis using cand cc cc0 before upto by simp
qed

lemma exit_inv_skip:
  assumes inv: "exit_inv m y exit cost"
    and worse: "exit_candidate m y \<longrightarrow> 0 \<le> cost \<and> cost \<le> cost_at m (rows m - 1, y)"
  shows "exit_inv m (y + 1) exit cost"
proof (cases exit)
  case None
  with inv have no: "\<forall>j<y. \<not> exit_candidate m j" and neg: "cost < 0" by simp_all
  have "\<not> exit_candidate m j" if "j < y + 1" for j
  proof (cases "j < y")
    case True
    with no show ?thesis by simp
  next
    case False
    with that have "j = y" by simp
    with worse neg show ?thesis by auto
  qed
  with None neg show ?thesis by simp
next
  case (Some e)
  with inv have low: "\<forall>j<y. exit_candidate m j \<longrightarrow> cost \<le> cost_at m (rows m - 1, j)"
    by auto
  have "cost \<le> cost_at m (rows m - 1, j)" if "j < y + 1" "exit_candidate m j" for j
  proof (cases "j < y")
    case True
    with low that show ?thesis by simp
  next
    case False
    with that have "j = y" by simp
    with worse that show ?thesis by simp
  qed
  with Some inv show ?thesis by auto
qed

lemma find_exit_returns:
  assumes R: "in_array (rows m - 1) 0" and C: "cols m \<le> MAX_COLS"
    and cand: "\<forall>j. exit_candidate m j \<longrightarrow> 0 \<le> cost_at m (rows m - 1, j)"
  shows "exit_inv m y exit cost \<Longrightarrow> 0 \<le> y \<Longrightarrow> y \<le> cols m \<Longrightarrow>
           \<exists>ex c. find_exit m (rows m - 1) y exit cost (cols m - y) = Inr ex \<and>
                  exit_inv m (cols m) ex c"
proof (induction "nat (cols m - y)" arbitrary: y exit cost rule: less_induct)
  case less
  show ?case
  proof (cases "y = cols m")
    case True
    then show ?thesis using less.prems by (auto simp: find_exit.simps)
  next
    case False
    with less.prems have y: "y < cols m" by simp
    then have arr: "in_array (rows m - 1) y" and lim: "cols m - y \<noteq> 0"
      and dec: "nat (cols m - (y + 1)) < nat (cols m - y)"
      and lim': "cols m - y - 1 = cols m - (y + 1)"
      and y1: "0 \<le> y + 1" "y + 1 \<le> cols m"
      using R C less.prems by (simp_all add: in_array_def)
    define cc where "cc = cost_at m (rows m - 1, y)"
    have candy: "exit_candidate m y \<longleftrightarrow>
        cell_type (cells m (rows m - 1) y) = PATH \<and> cell_reach (cells m (rows m - 1) y) \<noteq> 0"
      using y less.prems by (simp add: exit_candidate_def)
    show ?thesis
    proof (cases "exit_candidate m y \<and> (cost < 0 \<or> cc < cost)")
      case True
      with cand have cc0: "0 \<le> cc" by (simp add: cc_def)
      have step: "find_exit m (rows m - 1) y exit cost (cols m - y) =
            find_exit m (rows m - 1) (y + 1) (Some (rows m - 1, y)) cc (cols m - (y + 1))"
        using arr lim True cc0 candy
        by (subst find_exit.simps) (auto simp: lim' cc_def cost_at_def)
      from True have "exit_inv m (y + 1) (Some (rows m - 1, y)) cc"
        using exit_inv_take [OF less.prems(1) _ cc_def cc0] by blast
      from less.hyps [OF dec this y1] show ?thesis by (simp add: step)
    next
      case False
      have step: "find_exit m (rows m - 1) y exit cost (cols m - y) =
            find_exit m (rows m - 1) (y + 1) exit cost (cols m - (y + 1))"
        using arr lim False candy
        by (subst find_exit.simps) (auto simp: lim' cc_def cost_at_def)
      from False have "exit_candidate m y \<longrightarrow> 0 \<le> cost \<and> cost \<le> cost_at m (rows m - 1, y)"
        by (auto simp: cc_def)
      from less.hyps [OF dec exit_inv_skip [OF less.prems(1) this] y1]
      show ?thesis by (simp add: step)
    qed
  qed
qed

section \<open>The path reconstruction\<close>

lemma mark_soln_frame [simp]:
  "rows (mark_soln m p) = rows m" "cols (mark_soln m p) = cols m"
  "maze_cost (mark_soln m p) = maze_cost m" "maze_soln (mark_soln m p) = maze_soln m"
  "cost_at (mark_soln m p) p' = cost_at m p'" "reach_at (mark_soln m p) p' = reach_at m p'"
  "type_at (mark_soln m p) p' = type_at m p'"
  by (simp_all add: mark_soln_def cost_at_def reach_at_def type_at_def)

lemma soln_at_mark_soln [simp]:
  "soln_at (mark_soln m p) p' = (if p' = p then TRUE else soln_at m p')"
  by (auto simp: mark_soln_def soln_at_def prod_eq_iff)

lemma mark_all_simps [simp]:
  "mark_all m [] = m" "mark_all m (p # ps) = mark_all (mark_soln m p) ps"
  by (simp_all add: mark_all_def)

lemma mark_all_frame [simp]:
  "rows (mark_all m ps) = rows m" "cols (mark_all m ps) = cols m"
  "maze_cost (mark_all m ps) = maze_cost m" "maze_soln (mark_all m ps) = maze_soln m"
  "cost_at (mark_all m ps) p' = cost_at m p'" "reach_at (mark_all m ps) p' = reach_at m p'"
  "type_at (mark_all m ps) p' = type_at m p'"
  by (induction ps arbitrary: m; simp)+

lemma soln_at_mark_all:
  "soln_at (mark_all m ps) p' = (if p' \<in> set ps then TRUE else soln_at m p')"
  by (induction ps arbitrary: m) auto

lemma shortest_path_None [simp]: "shortest_path m ns None exit = Some (Inr (m, - 1))"
  by (subst shortest_path.simps) simp

lemma shortest_path_hit:
  assumes "q < length ns" and "exit = None \<or> Some (node_cell (ns ! q)) = exit"
    and "in_array (fst (node_cell (ns ! q))) (snd (node_cell (ns ! q)))"
  shows "shortest_path m ns (Some q) exit =
           Option.bind (shortest_path (mark_soln m (node_cell (ns ! q))) ns (node_parent (ns ! q)) None)
             (\<lambda>r. case r of Inl e \<Rightarrow> Some (Inl e) | Inr (m', k) \<Rightarrow> Some (Inr (m', 1 + k)))"
  using assms
  by (subst shortest_path.simps) (auto simp: node_at_def cell_at_def mark_soln_def)

lemma shortest_path_miss:
  assumes "q < length ns" and "node_cell (ns ! q) \<noteq> e"
  shows "shortest_path m ns (Some q) (Some e) = shortest_path m ns (node_next ns q) (Some e)"
  using assms
  by (subst shortest_path.simps) (simp add: node_at_def)

text \<open>From a node with exit null: the cells of the chain are marked and counted.\<close>

lemma shortest_path_chain:
  "chain ns k ps \<Longrightarrow> \<forall>n\<in>set ns. in_array (fst (node_cell n)) (snd (node_cell n)) \<Longrightarrow>
     shortest_path m ns (Some k) None = Some (Inr (mark_all m ps, int (length ps) - 1))"
proof (induction arbitrary: m rule: chain.induct)
  case (root k ns)
  then show ?case by (simp add: shortest_path_hit)
next
  case (link k ns j ps)
  from link.IH [OF link.prems, of "mark_soln m (node_cell (ns ! k))"] link(1,2) link.prems
  show ?case by (simp add: shortest_path_hit)
qed

text \<open>From the head with an exit: the list is walked up to the node of the exit.\<close>

lemma shortest_path_scan:
  assumes dist: "distinct (map node_cell ns)" and k: "k < length ns"
    and e: "node_cell (ns ! k) = e"
  shows "q \<le> k \<Longrightarrow> shortest_path m ns (Some q) (Some e) = shortest_path m ns (Some k) (Some e)"
proof (induction "k - q" arbitrary: q)
  case 0
  then show ?case by simp
next
  case (Suc d)
  then have q: "q < k" by simp
  with k have ql: "q < length ns" by simp
  have "(map node_cell ns ! q = map node_cell ns ! k) = (q = k)"
    using nth_eq_iff_index_eq [OF dist, of q k] ql k by simp
  then have "map node_cell ns ! q \<noteq> map node_cell ns ! k" using q by simp
  then have ne: "node_cell (ns ! q) \<noteq> e" using e k ql by simp
  have nx: "node_next ns q = Some (Suc q)" using q k by (simp add: node_next_def)
  from Suc(1) [of "Suc q"] Suc(2) q
  have "shortest_path m ns (Some (Suc q)) (Some e) = shortest_path m ns (Some k) (Some e)"
    by simp
  then show ?case by (simp add: shortest_path_miss [OF ql ne] nx)
qed

lemma shortest_path_returns:
  assumes dist: "distinct (map node_cell ns)" and k: "k < length ns"
    and e: "node_cell (ns ! k) = e" and ch: "chain ns k ps"
    and arr: "\<forall>n\<in>set ns. in_array (fst (node_cell n)) (snd (node_cell n))"
  shows "shortest_path m ns (list_head ns) (Some e) =
           Some (Inr (mark_all m ps, int (length ps) - 1))"
proof -
  from k have "list_head ns = Some 0" by (auto simp: list_head_def)
  then have "shortest_path m ns (list_head ns) (Some e) = shortest_path m ns (Some k) (Some e)"
    using shortest_path_scan [OF dist k e, of 0 m] by simp
  also have "\<dots> = shortest_path m ns (Some k) None"
  proof -
    have ak: "in_array (fst (node_cell (ns ! k))) (snd (node_cell (ns ! k)))"
      using arr k by simp
    have "Some (node_cell (ns ! k)) = Some e" using e by simp
    then show ?thesis
      by (simp only: shortest_path_hit [OF k disjI2 ak] shortest_path_hit [OF k disjI1 ak])
  qed
  finally show ?thesis using shortest_path_chain [OF ch arr] by simp
qed

section \<open>The whole traversal\<close>

lemma exit_candidate_grid:
  "exit_candidate m j \<Longrightarrow> 1 \<le> rows m \<Longrightarrow> in_grid m (rows m - 1, j)"
  by (simp add: exit_candidate_def in_grid_def)

lemma exit_candidate_reach:
  "exit_candidate m j \<Longrightarrow> reach_at m (rows m - 1, j) \<noteq> 0"
  by (simp add: exit_candidate_def reach_at_def)

lemma traverse_maze_result:
  assumes val: "valid_maze m0"
  shows "\<exists>m ns ex c.
           flood_maze m0 = Some (Inr (m, ns)) \<and> flood_inv m0 m ns (length ns) \<and>
           find_exit m (rows m - 1) 0 None NOTVISIT (cols m) = Inr ex \<and>
           exit_inv m (cols m) ex c \<and>
           (case ex of
              None \<Rightarrow> traverse_maze m0 = Some (Inr m)
            | Some e \<Rightarrow>
                (\<exists>k ps. k < length ns \<and> node_cell (ns ! k) = e \<and> chain ns k ps \<and>
                   traverse_maze m0 =
                     Some (Inr ((mark_all m ps)\<lparr>maze_cost := cost_at m e, maze_soln := TRUE\<rparr>))))"
proof -
  from flood_maze_returns [OF val]
  obtain m ns where fl: "flood_maze m0 = Some (Inr (m, ns))"
    and J: "flood_inv m0 m ns (length ns)" by blast
  from J have fr: "same_frame m0 m" and mk: "marks_ok m0 m ns" and par: "parents_ok m ns"
    by (simp_all add: flood_inv_def)
  from fr have rc: "rows m = rows m0" "cols m = cols m0" by (simp_all add: same_frame_def)
  from val have R: "in_array (rows m - 1) 0" and C: "cols m \<le> MAX_COLS" and r1: "1 \<le> rows m"
    by (simp_all add: rc valid_maze_def in_array_def)
  have cand: "\<forall>j. exit_candidate m j \<longrightarrow> 0 \<le> cost_at m (rows m - 1, j)"
  proof (intro allI impI)
    fix j assume c: "exit_candidate m j"
    from exit_candidate_grid [OF c r1] have "in_grid m0 (rows m - 1, j)"
      by (simp add: same_frame_grid(1) [OF fr])
    from flood_shortest(3) [OF J this] exit_candidate_reach [OF c]
    show "0 \<le> cost_at m (rows m - 1, j)" by simp
  qed
  have "exit_inv m 0 None NOTVISIT" by (simp add: exit_candidate_def)
  from find_exit_returns [OF R C cand this] val
  obtain ex c where fe: "find_exit m (rows m - 1) 0 None NOTVISIT (cols m) = Inr ex"
    and inv: "exit_inv m (cols m) ex c"
    by (auto simp: rc valid_maze_def)
  show ?thesis
  proof (cases ex)
    case None
    then have "traverse_maze m0 = Some (Inr m)"
      using fl fe R by (simp add: traverse_maze_def)
    with fl J fe inv None show ?thesis by auto
  next
    case (Some e)
    with inv have e: "fst e = rows m - 1" "exit_candidate m (snd e)"
      and c: "c = cost_at m e" "0 \<le> c" by simp_all
    have "e = (rows m - 1, snd e)" using e(1) by (simp add: prod_eq_iff)
    with exit_candidate_grid [OF e(2) r1] have "in_grid m e" by metis
    then have ge: "in_grid m0 e" by (simp add: same_frame_grid(1) [OF fr])
    with marks_ok_queued_iff [OF mk ge] c have "e \<in> queued ns" by simp
    then obtain k where k: "k < length ns" "node_cell (ns ! k) = e"
      using queued_nth by blast
    from chain_exists [OF par k(1)] obtain ps where ch: "chain ns k ps" by blast
    from chain_route [OF ch J] k(2) have len: "int (length ps) - 1 = cost_at m e" by simp
    have dist: "distinct (map node_cell ns)" using mk by (simp add: marks_ok_def)
    have arr: "\<forall>n\<in>set ns. in_array (fst (node_cell n)) (snd (node_cell n))"
      using mk valid_maze_in_array [OF val] by (auto simp: marks_ok_def is_open_def)
    from shortest_path_returns [OF dist k ch arr, of m] len
    have "shortest_path m ns (list_head ns) (Some e) = Some (Inr (mark_all m ps, cost_at m e))"
      by simp
    then have "traverse_maze m0 =
        Some (Inr ((mark_all m ps)\<lparr>maze_cost := cost_at m e, maze_soln := TRUE\<rparr>))"
      using fl fe R Some by (simp add: traverse_maze_def)
    with fl J fe inv Some k ch show ?thesis by auto
  qed
qed

section \<open>Every state of the flood satisfies the invariant\<close>

lemma flood_step_call:
  "flood_step (m, ns, queue) (m', ns', queue') \<Longrightarrow>
     recursive_flood m ns queue = recursive_flood m' ns' queue'"
  by (auto elim!: flood_step.cases simp: recursive_flood_Some)

lemma state_inv_next:
  assumes "flood_inv m0 m ns (Suc q)"
  shows "state_inv m0 (m, ns, node_next ns q)"
proof (cases "Suc q < length ns")
  case True
  with assms show ?thesis by (simp add: state_inv_def node_next_def)
next
  case False
  with assms have "Suc q = length ns" by (simp add: flood_inv_def)
  with assms False show ?thesis by (simp add: state_inv_def node_next_def)
qed

lemma state_inv_step:
  assumes inv: "state_inv m0 s" and step: "flood_step s s'"
  shows "state_inv m0 s'"
    and "0 \<le> cost_at (fst s) p \<Longrightarrow> cost_at (fst s') p = cost_at (fst s) p"
proof -
  from step obtain m ns q m' ns' where s: "s = (m, ns, Some q)"
    and s': "s' = (m', ns', node_next ns' q)" and node: "flood_node m ns q = Inr (m', ns')"
    by (auto elim: flood_step.cases)
  from inv s have J: "flood_inv m0 m ns q" and qlt: "q < length ns"
    by (simp_all add: state_inv_def)
  obtain r c where rc: "node_cell (ns ! q) = (r, c)" by (cases "node_cell (ns ! q)")
  from flood_inv_node [OF J qlt rc] node
  have J': "flood_inv m0 m' ns' (Suc q)"
    and keep: "\<forall>p. 0 \<le> cost_at m p \<longrightarrow> cost_at m' p = cost_at m p"
    by auto
  show "state_inv m0 s'" using state_inv_next [OF J'] by (simp add: s')
  show "0 \<le> cost_at (fst s) p \<Longrightarrow> cost_at (fst s') p = cost_at (fst s) p"
    using spec [OF keep, of p] by (simp add: s s')
qed

lemma state_inv_steps:
  assumes "flood_step\<^sup>*\<^sup>* s s'" and "state_inv m0 s"
  shows "state_inv m0 s' \<and> (\<forall>p. 0 \<le> cost_at (fst s) p \<longrightarrow> cost_at (fst s') p = cost_at (fst s) p)"
  using assms
proof (induction rule: rtranclp_induct)
  case base
  then show ?case by simp
next
  case (step s' s'')
  then have inv: "state_inv m0 s'"
    and keep: "\<forall>p. 0 \<le> cost_at (fst s) p \<longrightarrow> cost_at (fst s') p = cost_at (fst s) p"
    by simp_all
  have "cost_at (fst s'') p = cost_at (fst s) p" if "0 \<le> cost_at (fst s) p" for p
    using state_inv_step(2) [OF inv step(2), of p] spec [OF keep, of p] that by simp
  with state_inv_step(1) [OF inv step(2)] show ?case by blast
qed

lemma state_inv_start:
  assumes val: "valid_maze m0" and e: "find_entries m0 0 0 [] (cols m0) = Inr (m1, ns1)"
  shows "state_inv m0 (m1, ns1, list_head ns1)"
proof -
  from find_entries_returns [OF entries_inv_start [OF val]] e
  have "entries_inv m0 m1 ns1 (cols m0)" by simp
  from entries_inv_flood_inv [OF this] show ?thesis
    by (auto simp: state_inv_def list_head_def)
qed

lemma flood_state_inv:
  assumes "valid_maze m0" and "flood_state m0 s"
  shows "state_inv m0 s"
  using assms state_inv_steps state_inv_start unfolding flood_state_def by blast

section \<open>Concrete grids\<close>

lemma valid_maze_A: "valid_maze maze_A"
  by code_simp

lemma valid_maze_B: "valid_maze maze_B"
  by code_simp

lemma valid_maze_C: "valid_maze maze_C"
  by code_simp

section \<open>What the traversal leaves in the cells\<close>

lemma maze_update_frame [simp]:
  "cost_at (m\<lparr>maze_cost := a, maze_soln := b\<rparr>) p = cost_at m p"
  "reach_at (m\<lparr>maze_cost := a, maze_soln := b\<rparr>) p = reach_at m p"
  "type_at (m\<lparr>maze_cost := a, maze_soln := b\<rparr>) p = type_at m p"
  "soln_at (m\<lparr>maze_cost := a, maze_soln := b\<rparr>) p = soln_at m p"
  by (simp_all add: cost_at_def reach_at_def type_at_def soln_at_def)

lemma traverse_maze_cells:
  assumes val: "valid_maze m0"
  shows "\<exists>m ns m'. flood_maze m0 = Some (Inr (m, ns)) \<and> flood_inv m0 m ns (length ns) \<and>
           traverse_maze m0 = Some (Inr m') \<and> rows m' = rows m0 \<and> cols m' = cols m0 \<and>
           (\<forall>p. cost_at m' p = cost_at m p \<and> reach_at m' p = reach_at m p \<and>
                type_at m' p = type_at m0 p)"
proof -
  from traverse_maze_result [OF val]
  obtain m ns ex and c :: int where fl: "flood_maze m0 = Some (Inr (m, ns))"
    and J: "flood_inv m0 m ns (length ns)"
    and tr: "case ex of
              None \<Rightarrow> traverse_maze m0 = Some (Inr m)
            | Some e \<Rightarrow>
                (\<exists>k ps. k < length ns \<and> node_cell (ns ! k) = e \<and> chain ns k ps \<and>
                   traverse_maze m0 =
                     Some (Inr ((mark_all m ps)\<lparr>maze_cost := cost_at m e, maze_soln := TRUE\<rparr>)))"
    by blast
  from J have fr: "same_frame m0 m" by (simp add: flood_inv_def)
  then have rc: "rows m = rows m0" "cols m = cols m0" by (simp_all add: same_frame_def)
  have ty: "\<And>p. type_at m p = type_at m0 p" by (rule same_frame_grid(2) [OF fr])
  show ?thesis
  proof (cases ex)
    case None
    with tr fl J rc ty show ?thesis by simp
  next
    case (Some e)
    with tr obtain ps where
      "traverse_maze m0 = Some (Inr ((mark_all m ps)\<lparr>maze_cost := cost_at m e, maze_soln := TRUE\<rparr>))"
      by auto
    with fl J rc ty show ?thesis by simp
  qed
qed

lemma exit_candidate_frame:
  assumes "rows m' = rows m" and "cols m' = cols m"
    and "\<forall>p. type_at m' p = type_at m p \<and> reach_at m' p = reach_at m p"
  shows "exit_candidate m' y = exit_candidate m y"
proof -
  have "exit_candidate mm y \<longleftrightarrow> 0 \<le> y \<and> y < cols mm \<and> type_at mm (rows mm - 1, y) = PATH \<and>
          reach_at mm (rows mm - 1, y) \<noteq> 0" for mm
    by (simp add: exit_candidate_def type_at_def reach_at_def)
  with assms show ?thesis by simp
qed

lemma exit_candidate_marked [simp]:
  "exit_candidate ((mark_all m ps)\<lparr>maze_cost := a, maze_soln := b\<rparr>) y = exit_candidate m y"
  by (rule exit_candidate_frame) simp_all

lemma exit_candidate_less: "exit_candidate m y \<Longrightarrow> y < cols m"
  by (simp add: exit_candidate_def)

section \<open>The solution path\<close>

lemma open_path_snoc:
  "ps \<noteq> [] \<Longrightarrow>
     open_path m (ps @ [p]) = (open_path m ps \<and> adjacent (last ps) p \<and> is_open m p)"
  by (induction m ps rule: open_path.induct) auto

lemma open_path_rev: "open_path m ps \<Longrightarrow> open_path m (rev ps)"
proof (induction m ps rule: open_path.induct)
  case (1 m)
  then show ?case by simp
next
  case (2 m p)
  then show ?case by simp
next
  case (3 m p p' ps)
  define qs where "qs = rev (p' # ps)"
  from 3 have "open_path m qs" "adjacent p' p" "is_open m p"
    by (simp_all add: adjacent_sym qs_def)
  moreover have "last qs = p'" "qs \<noteq> []" by (simp_all add: qs_def)
  ultimately have "open_path m (qs @ [p])"
    using open_path_snoc [of qs m p] by simp
  then show ?case by (simp add: qs_def)
qed

lemma same_frame_soln: "same_frame m0 m \<Longrightarrow> soln_at m p = soln_at m0 p"
  by (simp add: same_frame_def soln_at_def)

lemma valid_maze_soln: "valid_maze m \<Longrightarrow> in_grid m p \<Longrightarrow> soln_at m p = FALSE"
  by (simp add: valid_maze_def in_grid_def soln_at_def)

lemma marks_ok_queued_grid: "marks_ok m0 m ns \<Longrightarrow> p \<in> queued ns \<Longrightarrow> in_grid m0 p"
  by (auto simp: marks_ok_def queued_def is_open_def)

section \<open>The flood reaches the end of the list\<close>

lemma recursive_flood_reaches:
  assumes "flood_inv m0 m ns q" and "q < length ns"
    and "recursive_flood m ns (Some q) = Some (Inr (m', ns'))"
  shows "flood_step\<^sup>*\<^sup>* (m, ns, Some q) (m', ns', None)"
  using assms
proof (induction "nat (rows m0) * nat (cols m0) - q" arbitrary: m ns q rule: less_induct)
  case less
  obtain r c where rc: "node_cell (ns ! q) = (r, c)" by (cases "node_cell (ns ! q)")
  from flood_inv_node [OF less.prems(1,2) rc]
  obtain m1 ns1 where node: "flood_node m ns q = Inr (m1, ns1)"
    and J1: "flood_inv m0 m1 ns1 (Suc q)"
    by fastforce
  have bound: "length ns \<le> nat (rows m0) * nat (cols m0)"
    using less.prems(1) marks_ok_length [of m0 m ns] by (simp add: flood_inv_def)
  have step: "flood_step (m, ns, Some q) (m1, ns1, node_next ns1 q)"
    by (rule flood_step.expand [OF node])
  have rec: "recursive_flood m1 ns1 (node_next ns1 q) = Some (Inr (m', ns'))"
    using less.prems(3) by (simp add: recursive_flood_Some [OF node])
  show ?case
  proof (cases "Suc q < length ns1")
    case True
    have dec: "nat (rows m0) * nat (cols m0) - Suc q < nat (rows m0) * nat (cols m0) - q"
      using bound less.prems(2) by simp
    from True have nx: "node_next ns1 q = Some (Suc q)" by (simp add: node_next_def)
    from less.hyps [OF dec J1 True] rec nx
    have "flood_step\<^sup>*\<^sup>* (m1, ns1, Some (Suc q)) (m', ns', None)" by simp
    with step nx show ?thesis by (simp add: converse_rtranclp_into_rtranclp)
  next
    case False
    then have nx: "node_next ns1 q = None" by (simp add: node_next_def)
    with rec have "m' = m1" "ns' = ns1" by simp_all
    with step nx show ?thesis by auto
  qed
qed

lemma flood_maze_reaches:
  assumes val: "valid_maze m0" and fl: "flood_maze m0 = Some (Inr (m, ns))"
  shows "flood_state m0 (m, ns, None)"
proof -
  from find_entries_returns [OF entries_inv_start [OF val]]
  obtain m1 ns1 where e: "find_entries m0 0 0 [] (cols m0) = Inr (m1, ns1)"
    and E: "entries_inv m0 m1 ns1 (cols m0)"
    by auto
  note J = entries_inv_flood_inv [OF E]
  from fl e have rec: "recursive_flood m1 ns1 (list_head ns1) = Some (Inr (m, ns))"
    by (simp add: flood_maze_def)
  have "flood_step\<^sup>*\<^sup>* (m1, ns1, list_head ns1) (m, ns, None)"
  proof (cases "ns1 = []")
    case True
    with rec show ?thesis by (simp add: list_head_def)
  next
    case False
    then have "0 < length ns1" "list_head ns1 = Some 0" by (simp_all add: list_head_def)
    with recursive_flood_reaches [OF J this(1)] rec show ?thesis by simp
  qed
  with e show ?thesis unfolding flood_state_def by blast
qed

lemma find_entries_no_open:
  assumes val: "valid_maze m" and no: "\<forall>y\<in>{0..<cols m}. cell_type (cells m 0 y) \<noteq> PATH"
  shows "0 \<le> y \<Longrightarrow> y \<le> cols m \<Longrightarrow> find_entries m 0 y [] (cols m - y) = Inr (m, [])"
proof (induction "nat (cols m - y)" arbitrary: y rule: less_induct)
  case less
  show ?case
  proof (cases "y = cols m")
    case True
    then show ?thesis by (simp add: find_entries.simps)
  next
    case False
    with less.prems have y: "y < cols m" by simp
    then have arr: "in_array 0 y" and lim: "cols m - y \<noteq> 0"
      and dec: "nat (cols m - (y + 1)) < nat (cols m - y)"
      and lim': "cols m - y - 1 = cols m - (y + 1)"
      and y1: "0 \<le> y + 1" "y + 1 \<le> cols m"
      using val less.prems by (simp_all add: in_array_def valid_maze_def)
    from no y less.prems have wall: "cell_type (cells m 0 y) \<noteq> PATH" by simp
    have "find_entries m 0 y [] (cols m - y) = find_entries m 0 (y + 1) [] (cols m - (y + 1))"
      using arr lim wall by (subst find_entries.simps) (simp add: lim')
    with less.hyps [OF dec y1] show ?thesis by simp
  qed
qed

lemma valid_maze_D: "valid_maze maze_D"
  by code_simp

lemma visit_cell_appends:
  assumes "visit_cell m ns q x y c = Inr (m', ns')" and "ns' \<noteq> ns"
  shows "(cell_cost (cells m x y) < NIL \<or> c < cell_cost (cells m x y)) \<and>
         cell_cost (cells m' x y) = c \<and>
         ns' = ns @ [\<lparr>node_cell = (x, y), node_parent = Some q\<rparr>]"
  using assms
  by (auto simp: visit_cell_def Let_def append_node_def split: if_splits)

text \<open>What a visit does to a cell that has a cost.\<close>

lemma visit_cell_guard:
  assumes "in_array x y" and "0 \<le> cell_cost (cells m x y)"
  shows "\<exists>m' ns'. visit_cell m ns q x y c = Inr (m', ns') \<and>
           cell_cost (cells m' x y) \<le> cell_cost (cells m x y) \<and>
           (cell_cost (cells m x y) \<le> c \<longrightarrow>
              cell_cost (cells m' x y) = cell_cost (cells m x y) \<and> ns' = ns) \<and>
           (cell_cost (cells m' x y) \<noteq> cell_cost (cells m x y) \<longrightarrow>
              c < cell_cost (cells m x y) \<and> cell_cost (cells m' x y) = c) \<and>
           (\<forall>x' y'. (x', y') \<noteq> (x, y) \<longrightarrow> cells m' x' y' = cells m x' y')"
proof (cases "c < cell_cost (cells m x y)")
  case True
  then show ?thesis using assms by (simp add: visit_cell_new)
next
  case False
  then show ?thesis using assms by (simp add: visit_cell_old)
qed

section \<open>A state of the flood of a concrete grid\<close>

lemma flood_state_start:
  assumes "find_entries m0 0 0 [] (cols m0) = Inr (m1, ns1)"
  shows "flood_state m0 (m1, ns1, list_head ns1)"
  using assms unfolding flood_state_def by blast

lemma flood_state_step:
  assumes val: "valid_maze m0" and st: "flood_state m0 (m, ns, Some q)"
  shows "\<exists>m' ns'. flood_node m ns q = Inr (m', ns') \<and>
           flood_step (m, ns, Some q) (m', ns', node_next ns' q)"
proof -
  from flood_state_inv [OF val st] have J: "flood_inv m0 m ns q" and qlt: "q < length ns"
    by (simp_all add: state_inv_def)
  obtain r c where rc: "node_cell (ns ! q) = (r, c)" by (cases "node_cell (ns ! q)")
  from flood_inv_node [OF J qlt rc] obtain m' ns' where "flood_node m ns q = Inr (m', ns')"
    by blast
  then show ?thesis using flood_step.expand by blast
qed

lemma maze_A_start:
  "\<exists>m1 ns1. find_entries maze_A 0 0 [] (cols maze_A) = Inr (m1, ns1) \<and>
     flood_state maze_A (m1, ns1, Some 0) \<and> node_cell (ns1 ! 0) = (0, 0) \<and>
     cost_at m1 (0, 0) = 0 \<and> cost_at m1 (1, 0) = NOTVISIT"
proof -
  from find_entries_returns [OF entries_inv_start [OF valid_maze_A]]
  obtain m1 ns1 where e: "find_entries maze_A 0 0 [] (cols maze_A) = Inr (m1, ns1)"
    by auto
  have "list_head (snd (projr (find_entries maze_A 0 0 [] (cols maze_A)))) = Some 0"
    and "node_cell (snd (projr (find_entries maze_A 0 0 [] (cols maze_A))) ! 0) = (0, 0)"
    and "cost_at (fst (projr (find_entries maze_A 0 0 [] (cols maze_A)))) (0, 0) = 0"
    and "cost_at (fst (projr (find_entries maze_A 0 0 [] (cols maze_A)))) (1, 0) = NOTVISIT"
    by code_simp+
  with e have "list_head ns1 = Some 0" "node_cell (ns1 ! 0) = (0, 0)" "cost_at m1 (0, 0) = 0"
    "cost_at m1 (1, 0) = NOTVISIT"
    by simp_all
  with flood_state_start [OF e] e show ?thesis by auto
qed

lemma flood_wall_untouched:
  assumes "cell_type (cells m x y) \<noteq> PATH" and "in_array x y"
  shows "flood_right m ns q x y c = Inr (m, ns)" and "flood_down m ns q x y c = Inr (m, ns)"
    and "flood_left m ns q x y c = Inr (m, ns)" and "flood_up m ns q x y c = Inr (m, ns)"
  using assms
  by (simp_all add: flood_right_def flood_down_def flood_left_def flood_up_def cell_at_def)

lemma fresh_filter:
  "fresh m0 m q p =
     map (\<lambda>p. \<lparr>node_cell = p, node_parent = Some q\<rparr>)
       (filter (\<lambda>p. is_open m0 p \<and> cost_at m p < 0) [p])"
  by (simp add: fresh_def)

text \<open>The result of expanding the node of a state of the flood.\<close>

lemma flood_state_node:
  assumes val: "valid_maze m0" and st: "flood_state m0 (m, ns, Some q)"
    and rc: "node_cell (ns ! q) = (r, c)"
  shows "\<exists>m'. flood_node m ns q =
             Inr (m', ns @ map (\<lambda>p. \<lparr>node_cell = p, node_parent = Some q\<rparr>)
                          (filter (\<lambda>p. is_open m0 p \<and> cost_at m p < 0)
                             [(r, c + 1), (r + 1, c), (r, c - 1), (r - 1, c)])) \<and>
           flood_inv m0 m'
             (ns @ map (\<lambda>p. \<lparr>node_cell = p, node_parent = Some q\<rparr>)
                          (filter (\<lambda>p. is_open m0 p \<and> cost_at m p < 0)
                             [(r, c + 1), (r + 1, c), (r, c - 1), (r - 1, c)])) (Suc q)"
proof -
  from flood_state_inv [OF val st] have J: "flood_inv m0 m ns q" and qlt: "q < length ns"
    by (simp_all add: state_inv_def)
  have "fresh m0 m q (r, c + 1) @ fresh m0 m q (r + 1, c) @
          fresh m0 m q (r, c - 1) @ fresh m0 m q (r - 1, c) =
        map (\<lambda>p. \<lparr>node_cell = p, node_parent = Some q\<rparr>)
          (filter (\<lambda>p. is_open m0 p \<and> cost_at m p < 0)
             [(r, c + 1), (r + 1, c), (r, c - 1), (r - 1, c)])"
    by (simp add: fresh_def)
  with flood_inv_node [OF J qlt rc] show ?thesis by auto
qed

section \<open>The costs stay small\<close>

text \<open>
  The costs are C \<open>int\<close>s, modelled as unbounded integers. In every state of the flood
  the cost of a cell of the grid is below the number of cells of the grid, at most
  10000, so \<open>cost + 1\<close> never overflows.
\<close>

lemma flood_inv_cost_bound:
  assumes J: "flood_inv m0 m ns q" and grid: "in_grid m0 p"
  shows "NOTVISIT \<le> cost_at m p" and "cost_at m p < rows m0 * cols m0"
    and "rows m0 * cols m0 \<le> 10000"
proof -
  from J have val: "valid_maze m0" and mk: "marks_ok m0 m ns" and par: "parents_ok m ns"
    by (simp_all add: flood_inv_def)
  from val have rc: "1 \<le> rows m0" "1 \<le> cols m0" "rows m0 \<le> 100" "cols m0 \<le> 100"
    by (simp_all add: valid_maze_def)
  then have pos: "1 \<le> rows m0 * cols m0" by (simp add: mult_le_cancel_left1 order_trans [of 1 "rows m0"])
  from rc have "rows m0 * cols m0 \<le> 100 * 100" by (intro mult_mono) simp_all
  then show "rows m0 * cols m0 \<le> 10000" by simp
  note at = marks_ok_at [OF mk grid]
  show "NOTVISIT \<le> cost_at m p" using at by (auto split: if_splits)
  show "cost_at m p < rows m0 * cols m0"
  proof (cases "p \<in> queued ns")
    case False
    with at pos show ?thesis by simp
  next
    case True
    then obtain k where k: "k < length ns" "node_cell (ns ! k) = p"
      using queued_nth by blast
    from chain_exists [OF par k(1)] obtain ps where ch: "chain ns k ps" by blast
    from chain_route [OF ch J] k(2)
    have len: "int (length ps) = cost_at m p + 1" and dist: "distinct ps"
      and sub: "set ps \<subseteq> queued ns"
      by simp_all
    from sub marks_ok_queued_grid [OF mk] have "set ps \<subseteq> {p. in_grid m0 p}" by blast
    from card_mono [OF grid_finite this] distinct_card [OF dist]
    have "length ps \<le> nat (rows m0) * nat (cols m0)" by (simp add: grid_card)
    also have "int \<dots> = rows m0 * cols m0" using rc by simp
    finally show ?thesis using len by simp
  qed
qed

text \<open>After the flood, the last row has a candidate exactly if a route ends in it.\<close>

lemma exit_candidate_route:
  assumes J: "flood_inv m0 m ns (length ns)"
  shows "(\<exists>y. exit_candidate m y) \<longleftrightarrow> (\<exists>y ps. route m0 ps (rows m0 - 1, y))"
proof
  from J have val: "valid_maze m0" and fr: "same_frame m0 m" by (simp_all add: flood_inv_def)
  from fr have rc: "rows m = rows m0" by (simp add: same_frame_def)
  from val have r1: "1 \<le> rows m" by (simp add: rc valid_maze_def)
  {
    assume "\<exists>y. exit_candidate m y"
    then obtain y where c: "exit_candidate m y" by blast
    from exit_candidate_grid [OF c r1] have g: "in_grid m0 (rows m0 - 1, y)"
      by (simp add: same_frame_grid(1) [OF fr] rc)
    from flood_shortest(2,3) [OF J g] exit_candidate_reach [OF c]
    show "\<exists>y ps. route m0 ps (rows m0 - 1, y)" by (auto simp: rc)
  }
  {
    assume "\<exists>y ps. route m0 ps (rows m0 - 1, y)"
    then obtain y ps where r: "route m0 ps (rows m0 - 1, y)" by blast
    then have "open_path m0 ps" and h: "hd ps = (rows m0 - 1, y)"
      by (simp_all add: route_def)
    from open_path_hd [OF this(1)] h have op: "is_open m0 (rows m0 - 1, y)" by simp
    then have g: "in_grid m0 (rows m0 - 1, y)" by (simp add: is_open_def)
    from flood_shortest(2,3) [OF J g] r have "reach_at m (rows m0 - 1, y) \<noteq> 0" by blast
    with op fr have "exit_candidate m y"
      by (simp add: exit_candidate_def is_open_def in_grid_def type_at_def reach_at_def
          same_frame_def)
    then show "\<exists>y. exit_candidate m y" by blast
  }
qed

section \<open>Claims\<close>

text \<open>
  C1. On a valid input grid the traversal returns, and in the maze it returns every cell
  of the grid whose cost is not the sentinel \<open>NOTVISIT\<close> has a non-negative cost equal to
  the least number of unit steps through 4-adjacent open cells from an entrance (an open
  cell of row 0), and every cell of the grid that some such path reaches has a cost.
\<close>

theorem traverse_costs_shortest:
  assumes "valid_maze m"
  shows "\<exists>m'. traverse_maze m = Some (Inr m') \<and>
           (\<forall>p. in_grid m p \<longrightarrow>
              (cost_at m' p \<noteq> NOTVISIT \<longrightarrow>
                 0 \<le> cost_at m' p \<and> shortest m p (nat (cost_at m' p))) \<and>
              ((\<exists>ps. route m ps p) \<longrightarrow> cost_at m' p \<noteq> NOTVISIT))"
proof -
  from traverse_maze_cells [OF assms]
  obtain m2 ns m' where J: "flood_inv m m2 ns (length ns)"
    and tr: "traverse_maze m = Some (Inr m')"
    and same: "\<forall>p. cost_at m' p = cost_at m2 p \<and> reach_at m' p = reach_at m2 p \<and>
                type_at m' p = type_at m p"
    by blast
  have "(cost_at m' p \<noteq> NOTVISIT \<longrightarrow> 0 \<le> cost_at m' p \<and> shortest m p (nat (cost_at m' p))) \<and>
        ((\<exists>ps. route m ps p) \<longrightarrow> cost_at m' p \<noteq> NOTVISIT)" if "in_grid m p" for p
    using flood_shortest(1,2) [OF J that] spec [OF same, of p] by auto
  with tr show ?thesis by blast
qed

theorem traverse_costs_shortest_witness:
  "valid_maze maze_A \<and>
   (\<exists>m'. traverse_maze maze_A = Some (Inr m') \<and> in_grid maze_A (2, 0) \<and>
      cost_at m' (2, 0) = 2 \<and> shortest maze_A (2, 0) 2)"
proof -
  from traverse_costs_shortest [OF valid_maze_A]
  obtain m' where tr: "traverse_maze maze_A = Some (Inr m')"
    and all: "\<forall>p. in_grid maze_A p \<longrightarrow>
              (cost_at m' p \<noteq> NOTVISIT \<longrightarrow>
                 0 \<le> cost_at m' p \<and> shortest maze_A p (nat (cost_at m' p))) \<and>
              ((\<exists>ps. route maze_A ps p) \<longrightarrow> cost_at m' p \<noteq> NOTVISIT)"
    by blast
  have grid: "in_grid maze_A (2, 0)" by code_simp
  have "cost_at (projr (the (traverse_maze maze_A))) (2, 0) = 2" by code_simp
  with tr have c: "cost_at m' (2, 0) = 2" by simp
  with spec [OF all, of "(2, 0)"] grid have "shortest maze_A (2, 0) 2" by simp
  with valid_maze_A tr grid c show ?thesis by blast
qed

text \<open>
  C3. On a valid input grid the traversal returns, and in the maze it returns the
  reachability flag of a cell of the grid is set if and only if a path of 4-adjacent open
  cells leads from the cell (the cell itself included) to an entrance.
\<close>

theorem traverse_reach_iff_route:
  assumes "valid_maze m"
  shows "\<exists>m'. traverse_maze m = Some (Inr m') \<and>
           (\<forall>p. in_grid m p \<longrightarrow> (reach_at m' p \<noteq> 0 \<longleftrightarrow> (\<exists>ps. route m ps p)))"
proof -
  from traverse_maze_cells [OF assms]
  obtain m2 ns m' where J: "flood_inv m m2 ns (length ns)"
    and tr: "traverse_maze m = Some (Inr m')"
    and same: "\<forall>p. cost_at m' p = cost_at m2 p \<and> reach_at m' p = reach_at m2 p \<and>
                type_at m' p = type_at m p"
    by blast
  have "reach_at m' p \<noteq> 0 \<longleftrightarrow> (\<exists>ps. route m ps p)" if "in_grid m p" for p
    using flood_shortest(2,3) [OF J that] spec [OF same, of p] by auto
  with tr show ?thesis by blast
qed

theorem traverse_reach_iff_route_witness:
  "valid_maze maze_C \<and>
   (\<exists>m'. traverse_maze maze_C = Some (Inr m') \<and> in_grid maze_C (1, 2) \<and>
      reach_at m' (1, 2) \<noteq> 0 \<and> (\<exists>ps. route maze_C ps (1, 2)))"
proof -
  from traverse_reach_iff_route [OF valid_maze_C]
  obtain m' where tr: "traverse_maze maze_C = Some (Inr m')"
    and all: "\<forall>p. in_grid maze_C p \<longrightarrow> (reach_at m' p \<noteq> 0 \<longleftrightarrow> (\<exists>ps. route maze_C ps p))"
    by blast
  have grid: "in_grid maze_C (1, 2)" by code_simp
  have "reach_at (projr (the (traverse_maze maze_C))) (1, 2) = TRUE" by code_simp
  with tr have r: "reach_at m' (1, 2) \<noteq> 0" by simp
  with spec [OF all, of "(1, 2)"] grid have "\<exists>ps. route maze_C ps (1, 2)" by simp
  with valid_maze_C tr grid r show ?thesis by blast
qed

text \<open>
  C9. On a valid input grid the traversal returns, and in the maze it returns the
  reachability flag of a cell of the grid is set if and only if the cell has a
  non-negative cost; a cell without one still has the cost \<open>NOTVISIT\<close>.
\<close>

theorem traverse_reach_iff_cost:
  assumes "valid_maze m"
  shows "\<exists>m'. traverse_maze m = Some (Inr m') \<and>
           (\<forall>p. in_grid m p \<longrightarrow>
              (reach_at m' p \<noteq> 0 \<longleftrightarrow> 0 \<le> cost_at m' p) \<and>
              (reach_at m' p = 0 \<longleftrightarrow> cost_at m' p = NOTVISIT))"
proof -
  from traverse_maze_cells [OF assms]
  obtain m2 ns m' where J: "flood_inv m m2 ns (length ns)"
    and tr: "traverse_maze m = Some (Inr m')"
    and same: "\<forall>p. cost_at m' p = cost_at m2 p \<and> reach_at m' p = reach_at m2 p \<and>
                type_at m' p = type_at m p"
    by blast
  from J have mk: "marks_ok m m2 ns" by (simp add: flood_inv_def)
  have "(reach_at m' p \<noteq> 0 \<longleftrightarrow> 0 \<le> cost_at m' p) \<and>
        (reach_at m' p = 0 \<longleftrightarrow> cost_at m' p = NOTVISIT)" if "in_grid m p" for p
    using marks_ok_at [OF mk that] spec [OF same, of p] by (auto split: if_splits)
  with tr show ?thesis by blast
qed

theorem traverse_reach_iff_cost_witness:
  "valid_maze maze_B \<and>
   (\<exists>m'. traverse_maze maze_B = Some (Inr m') \<and> in_grid maze_B (0, 0) \<and>
      in_grid maze_B (1, 1) \<and> reach_at m' (0, 0) \<noteq> 0 \<and> 0 \<le> cost_at m' (0, 0) \<and>
      reach_at m' (1, 1) = 0 \<and> cost_at m' (1, 1) = NOTVISIT)"
proof -
  from traverse_reach_iff_cost [OF valid_maze_B]
  obtain m' where tr: "traverse_maze maze_B = Some (Inr m')"
    and all: "\<forall>p. in_grid maze_B p \<longrightarrow>
              (reach_at m' p \<noteq> 0 \<longleftrightarrow> 0 \<le> cost_at m' p) \<and>
              (reach_at m' p = 0 \<longleftrightarrow> cost_at m' p = NOTVISIT)"
    by blast
  have grid: "in_grid maze_B (0, 0)" "in_grid maze_B (1, 1)" by code_simp+
  have "reach_at (projr (the (traverse_maze maze_B))) (0, 0) = TRUE"
    and "reach_at (projr (the (traverse_maze maze_B))) (1, 1) = FALSE" by code_simp+
  with tr have r: "reach_at m' (0, 0) \<noteq> 0" "reach_at m' (1, 1) = 0" by simp_all
  with spec [OF all, of "(0, 0)"] spec [OF all, of "(1, 1)"] grid
  have "0 \<le> cost_at m' (0, 0)" "cost_at m' (1, 1) = NOTVISIT" by simp_all
  with valid_maze_B tr grid r show ?thesis by blast
qed

text \<open>
  C2. On a valid input grid the traversal returns; the solution flag of the maze is set
  if and only if some cell of the last row is open and marked reachable, which is the
  case if and only if a route from an entrance ends in the last row; and when it is set
  the exit that \<open>find_exit\<close> selects is a candidate of the last row whose cost is the
  stored solution cost, no candidate costs less, and no candidate of that same cost
  lies further left.
\<close>

theorem traverse_exit_selection:
  assumes "valid_maze m"
  shows "\<exists>m2 ns m' ex.
           flood_maze m = Some (Inr (m2, ns)) \<and>
           find_exit m2 (rows m2 - 1) 0 None NOTVISIT (cols m2) = Inr ex \<and>
           traverse_maze m = Some (Inr m') \<and>
           (maze_soln m' \<noteq> FALSE \<longleftrightarrow> (\<exists>y. exit_candidate m' y)) \<and>
           ((\<exists>y. exit_candidate m' y) \<longleftrightarrow> (\<exists>y ps. route m ps (rows m - 1, y))) \<and>
           (maze_soln m' \<noteq> FALSE \<longrightarrow>
              (\<exists>y. ex = Some (rows m - 1, y) \<and> exit_candidate m' y \<and>
                 maze_cost m' = cost_at m' (rows m - 1, y) \<and>
                 (\<forall>j. exit_candidate m' j \<longrightarrow> maze_cost m' \<le> cost_at m' (rows m - 1, j)) \<and>
                 (\<forall>j. exit_candidate m' j \<and> cost_at m' (rows m - 1, j) = maze_cost m' \<longrightarrow>
                      y \<le> j)))"
proof -
  from traverse_maze_result [OF assms]
  obtain m2 ns ex and c :: int where fl: "flood_maze m = Some (Inr (m2, ns))"
    and J: "flood_inv m m2 ns (length ns)"
    and fe: "find_exit m2 (rows m2 - 1) 0 None NOTVISIT (cols m2) = Inr ex"
    and inv: "exit_inv m2 (cols m2) ex c"
    and tr: "case ex of
              None \<Rightarrow> traverse_maze m = Some (Inr m2)
            | Some e \<Rightarrow>
                (\<exists>k ps. k < length ns \<and> node_cell (ns ! k) = e \<and> chain ns k ps \<and>
                   traverse_maze m =
                     Some (Inr ((mark_all m2 ps)\<lparr>maze_cost := cost_at m2 e, maze_soln := TRUE\<rparr>)))"
    by blast
  from J have fr: "same_frame m m2" by (simp add: flood_inv_def)
  then have rc: "rows m2 = rows m" "maze_soln m2 = maze_soln m" by (simp_all add: same_frame_def)
  from assms have s0: "maze_soln m = FALSE" by (simp add: valid_maze_def)
  show ?thesis
  proof (cases ex)
    case None
    with inv have "\<not> exit_candidate m2 y" for y
      using exit_candidate_less [of m2 y] by auto
    with None tr fl fe rc s0 exit_candidate_route [OF J] show ?thesis by auto
  next
    case (Some e)
    with tr obtain ps where tm: "traverse_maze m =
        Some (Inr ((mark_all m2 ps)\<lparr>maze_cost := cost_at m2 e, maze_soln := TRUE\<rparr>))"
      by auto
    define m' where "m' = (mark_all m2 ps)\<lparr>maze_cost := cost_at m2 e, maze_soln := TRUE\<rparr>"
    from Some inv have e: "fst e = rows m2 - 1" "exit_candidate m2 (snd e)"
      and low: "\<forall>j<cols m2. exit_candidate m2 j \<longrightarrow> cost_at m2 e \<le> cost_at m2 (rows m2 - 1, j)"
      and left: "\<forall>j<snd e. exit_candidate m2 j \<longrightarrow> cost_at m2 e < cost_at m2 (rows m2 - 1, j)"
      by auto
    have ee: "e = (rows m - 1, snd e)" using e(1) rc by (simp add: prod_eq_iff)
    have c': "\<And>p. cost_at m' p = cost_at m2 p" and x': "\<And>y. exit_candidate m' y = exit_candidate m2 y"
      and mc: "maze_cost m' = cost_at m2 e" and ms: "maze_soln m' = TRUE"
      by (simp_all add: m'_def)
    have a: "maze_cost m' = cost_at m' (rows m - 1, snd e)" using ee mc c' by simp
    have b: "maze_cost m' \<le> cost_at m' (rows m - 1, j)" if "exit_candidate m' j" for j
      using that low exit_candidate_less [of m2 j] by (simp add: x' c' mc rc)
    have d: "snd e \<le> j" if "exit_candidate m' j" "cost_at m' (rows m - 1, j) = maze_cost m'" for j
    proof (rule ccontr)
      assume "\<not> snd e \<le> j"
      then have "j < snd e" by simp
      with left that(1) have "cost_at m2 e < cost_at m2 (rows m2 - 1, j)" by (simp add: x')
      with that(2) show False by (simp add: c' mc rc)
    qed
    have "ex = Some (rows m - 1, snd e)" using Some ee by simp
    moreover have "exit_candidate m' (snd e)" using e(2) by (simp add: x')
    ultimately have "\<exists>y. ex = Some (rows m - 1, y) \<and> exit_candidate m' y \<and>
                 maze_cost m' = cost_at m' (rows m - 1, y) \<and>
                 (\<forall>j. exit_candidate m' j \<longrightarrow> maze_cost m' \<le> cost_at m' (rows m - 1, j)) \<and>
                 (\<forall>j. exit_candidate m' j \<and> cost_at m' (rows m - 1, j) = maze_cost m' \<longrightarrow>
                      y \<le> j)"
      using a b d by blast
    moreover have "\<exists>y. exit_candidate m' y" using e(2) x' by blast
    moreover have "(\<exists>y. exit_candidate m' y) \<longleftrightarrow> (\<exists>y ps. route m ps (rows m - 1, y))"
      using exit_candidate_route [OF J] by (simp add: x')
    ultimately show ?thesis using fl fe tm ms unfolding m'_def [symmetric] by auto
  qed
qed

theorem traverse_exit_selection_witness:
  "valid_maze maze_A \<and>
   (\<exists>m2 ns m'. flood_maze maze_A = Some (Inr (m2, ns)) \<and>
      traverse_maze maze_A = Some (Inr m') \<and> maze_soln m' \<noteq> FALSE \<and>
      exit_candidate m' 0 \<and> exit_candidate m' 2 \<and>
      cost_at m' (2, 0) = 2 \<and> cost_at m' (2, 2) = 2 \<and> maze_cost m' = 2 \<and>
      find_exit m2 (rows m2 - 1) 0 None NOTVISIT (cols m2) = Inr (Some (2, 0)))"
proof -
  from traverse_exit_selection [OF valid_maze_A]
  obtain m2 ns m' ex where fl: "flood_maze maze_A = Some (Inr (m2, ns))"
    and fe: "find_exit m2 (rows m2 - 1) 0 None NOTVISIT (cols m2) = Inr ex"
    and tr: "traverse_maze maze_A = Some (Inr m')"
    and sel: "maze_soln m' \<noteq> FALSE \<longrightarrow>
              (\<exists>y. ex = Some (rows maze_A - 1, y) \<and> exit_candidate m' y \<and>
                 maze_cost m' = cost_at m' (rows maze_A - 1, y) \<and>
                 (\<forall>j. exit_candidate m' j \<longrightarrow> maze_cost m' \<le> cost_at m' (rows maze_A - 1, j)) \<and>
                 (\<forall>j. exit_candidate m' j \<and> cost_at m' (rows maze_A - 1, j) = maze_cost m' \<longrightarrow>
                      y \<le> j))"
    by blast
  have "maze_soln (projr (the (traverse_maze maze_A))) = TRUE"
    and "exit_candidate (projr (the (traverse_maze maze_A))) 0"
    and "exit_candidate (projr (the (traverse_maze maze_A))) 2"
    and "cost_at (projr (the (traverse_maze maze_A))) (2, 0) = 2"
    and "cost_at (projr (the (traverse_maze maze_A))) (2, 2) = 2"
    and "maze_cost (projr (the (traverse_maze maze_A))) = 2"
    by code_simp+
  with tr have ev: "maze_soln m' = TRUE" "exit_candidate m' 0" "exit_candidate m' 2"
    "cost_at m' (2, 0) = 2" "cost_at m' (2, 2) = 2" "maze_cost m' = 2"
    by simp_all
  have r: "rows maze_A - 1 = 2" by code_simp
  from sel ev(1) r obtain y where y: "ex = Some (2, y)" "exit_candidate m' y"
    and left: "\<forall>j. exit_candidate m' j \<and> cost_at m' (2, j) = maze_cost m' \<longrightarrow> y \<le> j"
    by auto
  from left ev have "y \<le> 0" by simp
  moreover from y(2) have "0 \<le> y" by (simp add: exit_candidate_def)
  ultimately have "ex = Some (2, 0)" using y(1) by simp
  with valid_maze_A fl fe tr ev show ?thesis by auto
qed

text \<open>
  C4. On a valid input grid with a solution, the cells of the grid with the solution flag
  set are exactly the cells of a sequence without repetition of open cells, each
  4-adjacent to the next, that starts at an entrance and ends at the exit that
  \<open>find_exit\<close> selects; the sequence has one cell more than the stored solution cost,
  and the stored solution cost is the cost of that exit.
\<close>

theorem traverse_solution_path:
  assumes "valid_maze m"
  shows "\<exists>m2 ns m' ex.
           flood_maze m = Some (Inr (m2, ns)) \<and>
           find_exit m2 (rows m2 - 1) 0 None NOTVISIT (cols m2) = Inr ex \<and>
           traverse_maze m = Some (Inr m') \<and>
           (maze_soln m' \<noteq> FALSE \<longrightarrow>
              (\<exists>e ps. ex = Some e \<and> {p. in_grid m p \<and> soln_at m' p \<noteq> 0} = set ps \<and>
                 distinct ps \<and> open_path m ps \<and> entrance m (hd ps) \<and> last ps = e \<and>
                 int (length ps) = maze_cost m' + 1 \<and> maze_cost m' = cost_at m' e))"
proof -
  from traverse_maze_result [OF assms]
  obtain m2 ns ex and c :: int where fl: "flood_maze m = Some (Inr (m2, ns))"
    and J: "flood_inv m m2 ns (length ns)"
    and fe: "find_exit m2 (rows m2 - 1) 0 None NOTVISIT (cols m2) = Inr ex"
    and tr: "case ex of
              None \<Rightarrow> traverse_maze m = Some (Inr m2)
            | Some e \<Rightarrow>
                (\<exists>k ps. k < length ns \<and> node_cell (ns ! k) = e \<and> chain ns k ps \<and>
                   traverse_maze m =
                     Some (Inr ((mark_all m2 ps)\<lparr>maze_cost := cost_at m2 e, maze_soln := TRUE\<rparr>)))"
    by blast
  from J have fr: "same_frame m m2" and mk: "marks_ok m m2 ns" by (simp_all add: flood_inv_def)
  from assms have s0: "maze_soln m = FALSE" by (simp add: valid_maze_def)
  show ?thesis
  proof (cases ex)
    case None
    with tr fl fe fr s0 show ?thesis by (auto simp: same_frame_def)
  next
    case (Some e)
    with tr obtain k ps where k: "k < length ns" "node_cell (ns ! k) = e"
      and ch: "chain ns k ps"
      and tm: "traverse_maze m =
        Some (Inr ((mark_all m2 ps)\<lparr>maze_cost := cost_at m2 e, maze_soln := TRUE\<rparr>))"
      by auto
    define m' where "m' = (mark_all m2 ps)\<lparr>maze_cost := cost_at m2 e, maze_soln := TRUE\<rparr>"
    from chain_route [OF ch J] k(2)
    have hd: "hd ps = e" and path: "open_path m ps" and ent: "entrance m (last ps)"
      and len: "int (length ps) = cost_at m2 e + 1" and dist: "distinct ps"
      and sub: "set ps \<subseteq> queued ns"
      by simp_all
    from path have ne: "ps \<noteq> []" by auto
    have soln: "soln_at m' p = (if p \<in> set ps then TRUE else soln_at m p)" for p
      by (simp add: m'_def soln_at_mark_all same_frame_soln [OF fr])
    have "{p. in_grid m p \<and> soln_at m' p \<noteq> 0} = set ps"
      using sub marks_ok_queued_grid [OF mk] valid_maze_soln [OF assms]
      by (auto simp: soln)
    then have "{p. in_grid m p \<and> soln_at m' p \<noteq> 0} = set (rev ps)" by simp
    moreover have "distinct (rev ps)" using dist by simp
    moreover have "open_path m (rev ps)" by (rule open_path_rev [OF path])
    moreover have "entrance m (hd (rev ps))" using ent ne by (simp add: hd_rev)
    moreover have "last (rev ps) = e" using hd ne by (simp add: last_rev)
    moreover have "int (length (rev ps)) = maze_cost m' + 1" using len by (simp add: m'_def)
    moreover have "maze_cost m' = cost_at m' e" by (simp add: m'_def)
    ultimately have "\<exists>e' qs. ex = Some e' \<and> {p. in_grid m p \<and> soln_at m' p \<noteq> 0} = set qs \<and>
                 distinct qs \<and> open_path m qs \<and> entrance m (hd qs) \<and> last qs = e' \<and>
                 int (length qs) = maze_cost m' + 1 \<and> maze_cost m' = cost_at m' e'"
      using Some by blast
    with fl fe tm show ?thesis unfolding m'_def [symmetric] by blast
  qed
qed

theorem traverse_solution_path_witness:
  "valid_maze maze_A \<and>
   (\<exists>m' ps. traverse_maze maze_A = Some (Inr m') \<and> maze_soln m' \<noteq> FALSE \<and>
      {p. in_grid maze_A p \<and> soln_at m' p \<noteq> 0} = set ps \<and> distinct ps \<and>
      open_path maze_A ps \<and> entrance maze_A (hd ps) \<and> last ps = (2, 0) \<and>
      length ps = 3 \<and> maze_cost m' = 2)"
proof -
  from traverse_solution_path [OF valid_maze_A]
  obtain m2 ns m' ex where fl: "flood_maze maze_A = Some (Inr (m2, ns))"
    and fe: "find_exit m2 (rows m2 - 1) 0 None NOTVISIT (cols m2) = Inr ex"
    and tr: "traverse_maze maze_A = Some (Inr m')"
    and sol: "maze_soln m' \<noteq> FALSE \<longrightarrow>
              (\<exists>e ps. ex = Some e \<and> {p. in_grid maze_A p \<and> soln_at m' p \<noteq> 0} = set ps \<and>
                 distinct ps \<and> open_path maze_A ps \<and> entrance maze_A (hd ps) \<and> last ps = e \<and>
                 int (length ps) = maze_cost m' + 1 \<and> maze_cost m' = cost_at m' e)"
    by blast
  have "maze_soln (projr (the (traverse_maze maze_A))) = TRUE"
    and "maze_cost (projr (the (traverse_maze maze_A))) = 2"
    by code_simp+
  with tr have ev: "maze_soln m' = TRUE" "maze_cost m' = 2" by simp_all
  have "find_exit (fst (projr (the (flood_maze maze_A))))
          (rows (fst (projr (the (flood_maze maze_A)))) - 1) 0 None NOTVISIT
          (cols (fst (projr (the (flood_maze maze_A))))) = Inr (Some (2, 0))"
    by code_simp
  with fl fe have ex: "ex = Some (2, 0)" by simp
  from sol ev ex obtain ps where "{p. in_grid maze_A p \<and> soln_at m' p \<noteq> 0} = set ps"
    "distinct ps" "open_path maze_A ps" "entrance maze_A (hd ps)" "last ps = (2, 0)"
    "length ps = 3"
    by auto
  moreover have "maze_soln m' \<noteq> FALSE" using ev by simp
  ultimately show ?thesis using valid_maze_A tr ev(2) by blast
qed

text \<open>
  C10. On a valid input grid whose first row has no open cell, \<open>find_entries\<close> returns
  the empty list, the flood returns at once, and \<open>traverse_maze\<close> returns the maze as it
  was: no cell of the grid is marked reachable, every cost is still \<open>NOTVISIT\<close>, the
  solution flag is clear and the solution cost is not assigned.
\<close>

theorem traverse_no_entrance:
  assumes "valid_maze m" and "\<forall>y\<in>{0..<cols m}. cell_type (cells m 0 y) \<noteq> PATH"
  shows "find_entries m 0 0 [] (cols m) = Inr (m, []) \<and>
         flood_maze m = Some (Inr (m, [])) \<and> traverse_maze m = Some (Inr m) \<and>
         maze_soln m = FALSE \<and>
         (\<forall>p. in_grid m p \<longrightarrow> reach_at m p = FALSE \<and> cost_at m p = NOTVISIT)"
proof -
  from assms(1) have c0: "0 \<le> cols m" by (simp add: valid_maze_def)
  from find_entries_no_open [OF assms order_refl c0]
  have fe: "find_entries m 0 0 [] (cols m) = Inr (m, [])" by simp
  then have fl: "flood_maze m = Some (Inr (m, []))"
    by (simp add: flood_maze_def list_head_def)
  from traverse_maze_result [OF assms(1)]
  obtain m2 ns ex where fl2: "flood_maze m = Some (Inr (m2, ns))"
    and res: "case ex of
              None \<Rightarrow> traverse_maze m = Some (Inr m2)
            | Some e \<Rightarrow>
                (\<exists>k ps. k < length ns \<and> node_cell (ns ! k) = e \<and> chain ns k ps \<and>
                   traverse_maze m =
                     Some (Inr ((mark_all m2 ps)\<lparr>maze_cost := cost_at m2 e, maze_soln := TRUE\<rparr>)))"
    by blast
  from fl fl2 have eq: "m2 = m" "ns = []" by simp_all
  have tr: "traverse_maze m = Some (Inr m)"
  proof (cases ex)
    case None
    with res eq show ?thesis by simp
  next
    case (Some e)
    with res eq show ?thesis by simp
  qed
  from assms(1) have "maze_soln m = FALSE"
    and "\<forall>p. in_grid m p \<longrightarrow> reach_at m p = FALSE \<and> cost_at m p = NOTVISIT"
    by (auto simp: valid_maze_def in_grid_def reach_at_def cost_at_def)
  with fe fl tr show ?thesis by blast
qed

theorem traverse_no_entrance_witness:
  "valid_maze maze_D \<and> cols maze_D = 2 \<and> cell_type (cells maze_D 0 0) \<noteq> PATH \<and>
   cell_type (cells maze_D 0 1) \<noteq> PATH \<and>
   is_open maze_D (1, 0) \<and> traverse_maze maze_D = Some (Inr maze_D) \<and>
   reach_at maze_D (1, 0) = FALSE \<and> cost_at maze_D (1, 0) = NOTVISIT"
proof -
  have cols: "cols maze_D = 2" by code_simp
  have walls: "cell_type (cells maze_D 0 0) \<noteq> PATH" "cell_type (cells maze_D 0 1) \<noteq> PATH"
    by code_simp+
  have "{0..<2::int} = {0, 1}" by auto
  with cols walls have no: "\<forall>y\<in>{0..<cols maze_D}. cell_type (cells maze_D 0 y) \<noteq> PATH"
    by simp
  have op: "is_open maze_D (1, 0)" by code_simp
  then have "in_grid maze_D (1, 0)" by (simp add: is_open_def)
  with traverse_no_entrance [OF valid_maze_D no] valid_maze_D cols walls op
  show ?thesis by blast
qed

text \<open>
  C5. On a valid input grid the traversal terminates: the flood passes from call to call
  of \<open>recursive_flood\<close> until the queue pointer is null, with every node expanded, and
  \<open>traverse_maze\<close> returns a maze whose solution flag is either set or clear. The list
  holds at most one node per cell of the grid, so at most \<open>rows * cols\<close> nodes; and a
  visit appends a node only when the cell had no cost or the proposed cost is strictly
  smaller than the stored one, and then stores the proposed cost.
\<close>

theorem traverse_terminates:
  assumes "valid_maze m"
  shows "\<exists>m2 ns m'.
           flood_maze m = Some (Inr (m2, ns)) \<and> flood_state m (m2, ns, None) \<and>
           expanded m m2 ns (length ns) \<and>
           traverse_maze m = Some (Inr m') \<and> (maze_soln m' = TRUE \<or> maze_soln m' = FALSE) \<and>
           distinct (map node_cell ns) \<and> length ns \<le> nat (rows m) * nat (cols m) \<and>
           (\<forall>mm nn q x y c mm' nn'.
              visit_cell mm nn q x y c = Inr (mm', nn') \<and> nn' \<noteq> nn \<longrightarrow>
                (cell_cost (cells mm x y) < NIL \<or> c < cell_cost (cells mm x y)) \<and>
                cell_cost (cells mm' x y) = c \<and>
                nn' = nn @ [\<lparr>node_cell = (x, y), node_parent = Some q\<rparr>])"
proof -
  from traverse_maze_result [OF assms]
  obtain m2 ns ex where fl: "flood_maze m = Some (Inr (m2, ns))"
    and J: "flood_inv m m2 ns (length ns)"
    and res: "case ex of
              None \<Rightarrow> traverse_maze m = Some (Inr m2)
            | Some e \<Rightarrow>
                (\<exists>k ps. k < length ns \<and> node_cell (ns ! k) = e \<and> chain ns k ps \<and>
                   traverse_maze m =
                     Some (Inr ((mark_all m2 ps)\<lparr>maze_cost := cost_at m2 e, maze_soln := TRUE\<rparr>)))"
    by blast
  from J have mk: "marks_ok m m2 ns" and ex: "expanded m m2 ns (length ns)"
    and fr: "same_frame m m2"
    by (simp_all add: flood_inv_def)
  from assms fr have s0: "maze_soln m2 = FALSE" by (simp add: valid_maze_def same_frame_def)
  have "\<exists>m'. traverse_maze m = Some (Inr m') \<and> (maze_soln m' = TRUE \<or> maze_soln m' = FALSE)"
  proof (cases ex)
    case None
    with res s0 show ?thesis by simp
  next
    case (Some e)
    with res show ?thesis by auto
  qed
  moreover have "distinct (map node_cell ns)" using mk by (simp add: marks_ok_def)
  moreover note marks_ok_length [OF mk] flood_maze_reaches [OF assms fl] fl ex
  ultimately show ?thesis using visit_cell_appends by blast
qed

theorem traverse_terminates_witness:
  "valid_maze maze_A \<and>
   (\<exists>m2 ns m'. flood_maze maze_A = Some (Inr (m2, ns)) \<and> flood_state maze_A (m2, ns, None) \<and>
      traverse_maze maze_A = Some (Inr m') \<and> maze_soln m' = TRUE \<and> length ns = 7 \<and>
      length ns \<le> nat (rows maze_A) * nat (cols maze_A))"
proof -
  from traverse_terminates [OF valid_maze_A]
  obtain m2 ns m' where fl: "flood_maze maze_A = Some (Inr (m2, ns))"
    and st: "flood_state maze_A (m2, ns, None)"
    and tr: "traverse_maze maze_A = Some (Inr m')"
    and len: "length ns \<le> nat (rows maze_A) * nat (cols maze_A)"
    by blast
  have "maze_soln (projr (the (traverse_maze maze_A))) = TRUE"
    and "length (snd (projr (the (flood_maze maze_A)))) = 7"
    by code_simp+
  with fl tr have "maze_soln m' = TRUE" "length ns = 7" by simp_all
  with valid_maze_A fl st tr len show ?thesis by blast
qed

text \<open>
  C6. A cost that has been set is never overwritten with a higher value. For any call of
  \<open>visit_cell\<close> on a cell with a non-negative cost: the stored cost does not rise; an
  equal or larger proposed cost leaves the stored cost and the list unchanged; a change
  of the stored cost stores the strictly smaller proposed cost; and no other cell is
  touched. For a valid input grid: a cell that has a non-negative cost in some state of
  the flood has the same cost in every later state.
\<close>

theorem cost_never_raised:
  "(in_array x y \<and> 0 \<le> cell_cost (cells mm x y) \<longrightarrow>
      (\<exists>mm' nn'. visit_cell mm nn q x y c = Inr (mm', nn') \<and>
         cell_cost (cells mm' x y) \<le> cell_cost (cells mm x y) \<and>
         (cell_cost (cells mm x y) \<le> c \<longrightarrow>
            cell_cost (cells mm' x y) = cell_cost (cells mm x y) \<and> nn' = nn) \<and>
         (cell_cost (cells mm' x y) \<noteq> cell_cost (cells mm x y) \<longrightarrow>
            c < cell_cost (cells mm x y) \<and> cell_cost (cells mm' x y) = c) \<and>
         (\<forall>x' y'. (x', y') \<noteq> (x, y) \<longrightarrow> cells mm' x' y' = cells mm x' y'))) \<and>
   (valid_maze m0 \<and> flood_state m0 s \<and> flood_step\<^sup>*\<^sup>* s s' \<and> 0 \<le> cost_at (fst s) p \<longrightarrow>
      cost_at (fst s') p = cost_at (fst s) p)"
proof (intro conjI impI)
  assume "in_array x y \<and> 0 \<le> cell_cost (cells mm x y)"
  then show "\<exists>mm' nn'. visit_cell mm nn q x y c = Inr (mm', nn') \<and>
         cell_cost (cells mm' x y) \<le> cell_cost (cells mm x y) \<and>
         (cell_cost (cells mm x y) \<le> c \<longrightarrow>
            cell_cost (cells mm' x y) = cell_cost (cells mm x y) \<and> nn' = nn) \<and>
         (cell_cost (cells mm' x y) \<noteq> cell_cost (cells mm x y) \<longrightarrow>
            c < cell_cost (cells mm x y) \<and> cell_cost (cells mm' x y) = c) \<and>
         (\<forall>x' y'. (x', y') \<noteq> (x, y) \<longrightarrow> cells mm' x' y' = cells mm x' y')"
    using visit_cell_guard [of x y mm nn q c] by blast
next
  assume a: "valid_maze m0 \<and> flood_state m0 s \<and> flood_step\<^sup>*\<^sup>* s s' \<and> 0 \<le> cost_at (fst s) p"
  then have "state_inv m0 s" using flood_state_inv by blast
  with a state_inv_steps [of s s' m0] show "cost_at (fst s') p = cost_at (fst s) p" by blast
qed

theorem cost_never_raised_witness:
  "in_array 0 0 \<and>
   0 \<le> cell_cost (cells (put_cell maze_A 0 0 ((cells maze_A 0 0)\<lparr>cell_cost := 0\<rparr>)) 0 0) \<and>
   (\<exists>mm' nn'. visit_cell (put_cell maze_A 0 0 ((cells maze_A 0 0)\<lparr>cell_cost := 0\<rparr>)) [] 0 0 0 2
                 = Inr (mm', nn') \<and> cell_cost (cells mm' 0 0) = 0 \<and> nn' = []) \<and>
   valid_maze maze_A \<and>
   (\<exists>s s'. flood_state maze_A s \<and> flood_step\<^sup>*\<^sup>* s s' \<and> s' \<noteq> s \<and>
      cost_at (fst s) (0, 0) = 0 \<and> cost_at (fst s') (0, 0) = 0)"
proof -
  define M where "M = put_cell maze_A 0 0 ((cells maze_A 0 0)\<lparr>cell_cost := 0\<rparr>)"
  have arr: "in_array 0 0" by (simp add: in_array_def)
  have c0: "cell_cost (cells M 0 0) = 0" by (simp add: M_def)
  from conjunct1 [OF cost_never_raised [of 0 0 M "[]" 0 2]] arr c0
  have one: "\<exists>mm' nn'. visit_cell M [] 0 0 0 2 = Inr (mm', nn') \<and> cell_cost (cells mm' 0 0) = 0 \<and>
               nn' = []"
    by auto
  from maze_A_start obtain m1 ns1 where st: "flood_state maze_A (m1, ns1, Some 0)"
    and c: "cost_at m1 (0, 0) = 0" by blast
  from flood_state_step [OF valid_maze_A st]
  obtain m' ns' where step: "flood_step (m1, ns1, Some 0) (m', ns', node_next ns' 0)" by blast
  then have steps: "flood_step\<^sup>*\<^sup>* (m1, ns1, Some 0) (m', ns', node_next ns' 0)" by blast
  have ne: "(m', ns', node_next ns' 0) \<noteq> (m1, ns1, Some 0)" by (simp add: node_next_def)
  from conjunct2 [OF cost_never_raised
      [of _ _ _ _ _ _ maze_A "(m1, ns1, Some 0)" "(m', ns', node_next ns' 0)" "(0, 0)"]]
    valid_maze_A st steps c
  have "cost_at m' (0, 0) = 0" by simp
  with st steps ne c have two: "\<exists>s s'. flood_state maze_A s \<and> flood_step\<^sup>*\<^sup>* s s' \<and> s' \<noteq> s \<and>
      cost_at (fst s) (0, 0) = 0 \<and> cost_at (fst s') (0, 0) = 0"
    by (intro exI [of _ "(m1, ns1, Some 0)"] exI [of _ "(m', ns', node_next ns' 0)"]) simp
  from arr c0 one valid_maze_A two show ?thesis unfolding M_def by simp
qed

text \<open>
  C7, as the code has it. The claim that an expanded open cell marks its wall neighbours
  reachable fails: after the traversal of the grid \<open>.#\<close> / \<open>##\<close> the open cell \<open>(0, 0)\<close>
  has a node and is reachable, and its wall neighbour \<open>(0, 1)\<close> inside the grid is not
  marked.
\<close>

theorem wall_neighbour_not_marked:
  "node_cell (snd (projr (the (flood_maze maze_B))) ! 0) = (0, 0) \<and>
   is_open maze_B (0, 0) \<and> reach_at (projr (the (traverse_maze maze_B))) (0, 0) = TRUE \<and>
   adjacent (0, 0) (0, 1) \<and> in_grid maze_B (0, 1) \<and> type_at maze_B (0, 1) = WALL \<and>
   reach_at (projr (the (traverse_maze maze_B))) (0, 1) = FALSE"
  by code_simp

text \<open>
  C7, amended. The four attempts leave a cell that is not open untouched. On a valid
  input grid, when the node of a state of the flood is expanded, each neighbour of its
  cell inside the grid is marked reachable afterwards if it is open, and is not marked
  if it is a wall.
\<close>

theorem flood_marks_open_neighbours:
  "(in_array x y \<and> cell_type (cells mm x y) \<noteq> PATH \<longrightarrow>
      flood_right mm nn k x y d = Inr (mm, nn) \<and> flood_down mm nn k x y d = Inr (mm, nn) \<and>
      flood_left mm nn k x y d = Inr (mm, nn) \<and> flood_up mm nn k x y d = Inr (mm, nn)) \<and>
   (valid_maze m0 \<and> flood_state m0 (m, ns, Some q) \<and> flood_node m ns q = Inr (m', ns') \<and>
    in_grid m0 p \<and> adjacent (node_cell (ns ! q)) p \<longrightarrow>
      (if type_at m0 p = PATH then reach_at m' p = TRUE else reach_at m' p = FALSE))"
proof (intro conjI impI)
  assume a: "in_array x y \<and> cell_type (cells mm x y) \<noteq> PATH"
  then show "flood_right mm nn k x y d = Inr (mm, nn)" "flood_down mm nn k x y d = Inr (mm, nn)"
    "flood_left mm nn k x y d = Inr (mm, nn)" "flood_up mm nn k x y d = Inr (mm, nn)"
    by (simp_all add: flood_wall_untouched)
next
  assume a: "valid_maze m0 \<and> flood_state m0 (m, ns, Some q) \<and> flood_node m ns q = Inr (m', ns') \<and>
    in_grid m0 p \<and> adjacent (node_cell (ns ! q)) p"
  then have val: "valid_maze m0" and st: "flood_state m0 (m, ns, Some q)"
    and node: "flood_node m ns q = Inr (m', ns')" and grid: "in_grid m0 p"
    and adj: "adjacent (node_cell (ns ! q)) p"
    by simp_all
  from flood_state_inv [OF val st] have qlt: "q < length ns" by (simp add: state_inv_def)
  obtain r c where rc: "node_cell (ns ! q) = (r, c)" by (cases "node_cell (ns ! q)")
  from flood_state_node [OF val st rc] node
  obtain zs where ns': "ns' = ns @ zs" and J': "flood_inv m0 m' ns' (Suc q)" by auto
  from J' have mk: "marks_ok m0 m' ns'" and ex: "expanded m0 m' ns' (Suc q)"
    by (simp_all add: flood_inv_def)
  have nq: "ns' ! q = ns ! q" using qlt by (simp add: ns' nth_append)
  show "if type_at m0 p = PATH then reach_at m' p = TRUE else reach_at m' p = FALSE"
  proof (cases "type_at m0 p = PATH")
    case True
    with grid have op: "is_open m0 p" by (simp add: is_open_def)
    from expandedD [OF ex _ _ op, of q] adj nq have "0 \<le> cost_at m' p" by simp
    then have "p \<in> queued ns'" using marks_ok_queued_iff [OF mk grid] by simp
    with marks_ok_at [OF mk grid] True show ?thesis by simp
  next
    case False
    have "p \<notin> queued ns'"
    proof
      assume "p \<in> queued ns'"
      then obtain n where "n \<in> set ns'" "node_cell n = p" by (auto simp: queued_def)
      with mk have "is_open m0 p" by (auto simp: marks_ok_def)
      with False show False by (simp add: is_open_def)
    qed
    with marks_ok_at [OF mk grid] False show ?thesis by simp
  qed
qed

theorem flood_marks_open_neighbours_witness:
  "in_array 0 1 \<and> cell_type (cells maze_A 0 1) \<noteq> PATH \<and>
   flood_right maze_A [] 0 0 1 1 = Inr (maze_A, []) \<and>
   valid_maze maze_A \<and>
   (\<exists>m ns m' ns'. flood_state maze_A (m, ns, Some 0) \<and> flood_node m ns 0 = Inr (m', ns') \<and>
      node_cell (ns ! 0) = (0, 0) \<and>
      in_grid maze_A (1, 0) \<and> adjacent (0, 0) (1, 0) \<and> type_at maze_A (1, 0) = PATH \<and>
      reach_at m' (1, 0) = TRUE \<and>
      in_grid maze_A (0, 1) \<and> adjacent (0, 0) (0, 1) \<and> type_at maze_A (0, 1) \<noteq> PATH \<and>
      reach_at m' (0, 1) = FALSE)"
proof -
  have arr: "in_array 0 1" by (simp add: in_array_def)
  have wall: "cell_type (cells maze_A 0 1) \<noteq> PATH" by code_simp
  from conjunct1 [OF flood_marks_open_neighbours [of 0 1 maze_A "[]" 0 1]] arr wall
  have one: "flood_right maze_A [] 0 0 1 1 = Inr (maze_A, [])" by simp
  from maze_A_start obtain m1 ns1 where st: "flood_state maze_A (m1, ns1, Some 0)"
    and n0: "node_cell (ns1 ! 0) = (0, 0)" by blast
  from flood_state_step [OF valid_maze_A st]
  obtain m' ns' where node: "flood_node m1 ns1 0 = Inr (m', ns')" by blast
  have g: "in_grid maze_A (1, 0)" "adjacent (0, 0) (1, 0)" "type_at maze_A (1, 0) = PATH"
    "in_grid maze_A (0, 1)" "adjacent (0, 0) (0, 1)" "type_at maze_A (0, 1) \<noteq> PATH"
    by code_simp+
  from conjunct2 [OF flood_marks_open_neighbours
      [of _ _ _ _ _ _ maze_A m1 ns1 0 m' ns' "(1, 0)"]] valid_maze_A st node n0 g
  have r1: "reach_at m' (1, 0) = TRUE" by simp
  from conjunct2 [OF flood_marks_open_neighbours
      [of _ _ _ _ _ _ maze_A m1 ns1 0 m' ns' "(0, 1)"]] valid_maze_A st node n0 g
  have r2: "reach_at m' (0, 1) = FALSE" by simp
  from st node n0 g r1 r2
  have "\<exists>m ns m' ns'. flood_state maze_A (m, ns, Some 0) \<and> flood_node m ns 0 = Inr (m', ns') \<and>
      node_cell (ns ! 0) = (0, 0) \<and>
      in_grid maze_A (1, 0) \<and> adjacent (0, 0) (1, 0) \<and> type_at maze_A (1, 0) = PATH \<and>
      reach_at m' (1, 0) = TRUE \<and>
      in_grid maze_A (0, 1) \<and> adjacent (0, 0) (0, 1) \<and> type_at maze_A (0, 1) \<noteq> PATH \<and>
      reach_at m' (0, 1) = FALSE"
    by blast
  with arr wall one valid_maze_A show ?thesis by blast
qed

text \<open>
  C8. On a valid input grid, in every state of the flood with a node to expand: the node
  stands for a cell \<open>(r, c)\<close> of the grid that stores its own coordinates; each of the
  four single-axis guards, when it holds, places the neighbour it guards inside the grid,
  and every cell of the grid is inside the allocated block; so the expansion returns
  without an out-of-bounds access, and the nodes it appends are those of the open
  neighbours without a cost among \<open>(r, c+1)\<close>, \<open>(r+1, c)\<close>, \<open>(r, c-1)\<close>, \<open>(r-1, c)\<close>, in
  this order. The whole flood returns without an error.
\<close>

theorem flood_accesses_in_bounds:
  assumes "valid_maze m0" and "flood_state m0 (m, ns, Some q)"
  shows "\<exists>r c m'.
           q < length ns \<and> node_cell (ns ! q) = (r, c) \<and> in_grid m0 (r, c) \<and>
           cell_x (cells m r c) = r \<and> cell_y (cells m r c) = c \<and>
           rows m = rows m0 \<and> cols m = cols m0 \<and>
           (c + 1 < cols m \<longrightarrow> in_grid m0 (r, c + 1)) \<and>
           (r + 1 < rows m \<longrightarrow> in_grid m0 (r + 1, c)) \<and>
           (c - 1 \<ge> NIL \<longrightarrow> in_grid m0 (r, c - 1)) \<and>
           (r - 1 \<ge> NIL \<longrightarrow> in_grid m0 (r - 1, c)) \<and>
           (\<forall>p. in_grid m0 p \<longrightarrow> in_array (fst p) (snd p)) \<and>
           flood_node m ns q =
             Inr (m', ns @ map (\<lambda>p. \<lparr>node_cell = p, node_parent = Some q\<rparr>)
                          (filter (\<lambda>p. is_open m0 p \<and> cost_at m p < 0)
                             [(r, c + 1), (r + 1, c), (r, c - 1), (r - 1, c)])) \<and>
           (\<exists>m2 ns2. flood_maze m0 = Some (Inr (m2, ns2)))"
proof -
  from flood_state_inv [OF assms] have J: "flood_inv m0 m ns q" and qlt: "q < length ns"
    by (simp_all add: state_inv_def)
  obtain r c where rc: "node_cell (ns ! q) = (r, c)" by (cases "node_cell (ns ! q)")
  note cell = flood_inv_cell [OF J qlt rc]
  from cell(2) have fr: "rows m = rows m0" "cols m = cols m0" by (simp_all add: same_frame_def)
  have xy: "cell_x (cells m r c) = r" "cell_y (cells m r c) = c"
    using valid_maze_coords [OF cell(1) cell(3)] cell(2) by (simp_all add: same_frame_def)
  have guards: "c + 1 < cols m \<longrightarrow> in_grid m0 (r, c + 1)"
    "r + 1 < rows m \<longrightarrow> in_grid m0 (r + 1, c)"
    "c - 1 \<ge> NIL \<longrightarrow> in_grid m0 (r, c - 1)"
    "r - 1 \<ge> NIL \<longrightarrow> in_grid m0 (r - 1, c)"
    using cell(3) by (simp_all add: in_grid_def fr)
  have arr: "\<forall>p. in_grid m0 p \<longrightarrow> in_array (fst p) (snd p)"
    using valid_maze_in_array [OF assms(1)] by blast
  from flood_state_node [OF assms rc]
  obtain m' where "flood_node m ns q =
             Inr (m', ns @ map (\<lambda>p. \<lparr>node_cell = p, node_parent = Some q\<rparr>)
                          (filter (\<lambda>p. is_open m0 p \<and> cost_at m p < 0)
                             [(r, c + 1), (r + 1, c), (r, c - 1), (r - 1, c)]))"
    by blast
  moreover from flood_maze_returns [OF assms(1)]
  have "\<exists>m2 ns2. flood_maze m0 = Some (Inr (m2, ns2))" by blast
  ultimately show ?thesis using qlt rc cell(3) xy fr guards arr by blast
qed

theorem flood_accesses_in_bounds_witness:
  "valid_maze maze_A \<and>
   (\<exists>m ns m'. flood_state maze_A (m, ns, Some 0) \<and> node_cell (ns ! 0) = (0, 0) \<and>
      0 + 1 < cols m \<and> in_grid maze_A (0, 0 + 1) \<and> 0 + 1 < rows m \<and> in_grid maze_A (0 + 1, 0) \<and>
      \<not> 0 - 1 \<ge> NIL \<and> is_open maze_A (1, 0) \<and> \<not> is_open maze_A (0, 1) \<and>
      flood_node m ns 0 = Inr (m', ns @ [\<lparr>node_cell = (1, 0), node_parent = Some 0\<rparr>]))"
proof -
  from maze_A_start obtain m1 ns1 where st: "flood_state maze_A (m1, ns1, Some 0)"
    and n0: "node_cell (ns1 ! 0) = (0, 0)" and c1: "cost_at m1 (1, 0) = NOTVISIT" by blast
  from flood_accesses_in_bounds [OF valid_maze_A st] n0
  obtain m' where fr: "rows m1 = rows maze_A" "cols m1 = cols maze_A"
    and node: "flood_node m1 ns1 0 =
             Inr (m', ns1 @ map (\<lambda>p. \<lparr>node_cell = p, node_parent = Some 0\<rparr>)
                          (filter (\<lambda>p. is_open maze_A p \<and> cost_at m1 p < 0)
                             [(0, 0 + 1), (0 + 1, 0), (0, 0 - 1), (0 - 1, 0)]))"
    by auto
  have g: "rows maze_A = 3" "cols maze_A = 3" "in_grid maze_A (0, 1)" "in_grid maze_A (1, 0)"
    "is_open maze_A (1, 0)" "\<not> is_open maze_A (0, 1)" "\<not> is_open maze_A (0, - 1)"
    "\<not> is_open maze_A (- 1, 0)"
    by code_simp+
  from node g c1 have "flood_node m1 ns1 0 = Inr (m', ns1 @ [\<lparr>node_cell = (1, 0), node_parent = Some 0\<rparr>])"
    by simp
  with st n0 fr g
  have "flood_state maze_A (m1, ns1, Some 0) \<and> node_cell (ns1 ! 0) = (0, 0) \<and>
      0 + 1 < cols m1 \<and> in_grid maze_A (0, 0 + 1) \<and> 0 + 1 < rows m1 \<and> in_grid maze_A (0 + 1, 0) \<and>
      \<not> 0 - 1 \<ge> NIL \<and> is_open maze_A (1, 0) \<and> \<not> is_open maze_A (0, 1) \<and>
      flood_node m1 ns1 0 = Inr (m', ns1 @ [\<lparr>node_cell = (1, 0), node_parent = Some 0\<rparr>])"
    by simp
  then show ?thesis using valid_maze_A by blast
qed

end
